theory Spec2Isabelle
  imports Main "HOL-Library.Monad_Syntax"
begin

section \<open>Memory\<close>

text \<open>
  The vector of \<^verbatim>\<open>simple_vector.h\<close> owns one heap block through an \<^verbatim>\<open>ArrayPtr\<close> and
  reaches its elements through raw pointers into that block. Claims about copies and
  moves depend on which vector owns which block, so the blocks live in an explicit heap:
  a table of blocks, indexed by address. An entry \<open>Some b\<close> is a live block holding the
  elements \<open>b\<close>, an entry \<open>None\<close> a block that was released with \<^verbatim>\<open>delete[]\<close>.
  An allocation takes the next unused address; the heap is unbounded, so
  \<^verbatim>\<open>std::bad_alloc\<close> is not modelled.

  Undefined behaviour (a failed \<^verbatim>\<open>assert\<close>, a dereference outside a live block, or of
  the null pointer) is the result \<open>None\<close> of the operation that runs into it.

  \<^verbatim>\<open>size_t\<close> is modelled by \<open>nat\<close>. The only arithmetic on it is \<^verbatim>\<open>size_ + 1\<close>,
  \<^verbatim>\<open>capacity_ * 2\<close>, and the decrements guarded by the assertions; a capacity is the length
  of an allocated block, which is below \<open>2 ^ 63\<close> elements on a 64-bit machine, so none
  of them wraps around on a vector that exists.
\<close>

type_synonym addr = nat

type_synonym 'a heap = "'a list option list"

definition block :: "'a heap \<Rightarrow> addr \<Rightarrow> 'a list option" where
  "block h a = (if a < length h then h ! a else None)"

text \<open>
  A raw pointer \<^verbatim>\<open>Type*\<close> to the start of a block: \<open>None\<close> is \<^verbatim>\<open>nullptr\<close>. A pointer
  into a block (an iterator, or a reference to a slot) is the block and an offset.
\<close>

type_synonym raw_ptr = "addr option"

datatype pointer = Pointer (base: raw_ptr) (offset: nat)

text \<open>\<^verbatim>\<open>*(p + i)\<close> read, and \<^verbatim>\<open>*(p + i) = x\<close>.\<close>

definition load :: "'a heap \<Rightarrow> raw_ptr \<Rightarrow> nat \<Rightarrow> 'a option" where
  "load h p i =
     (case p of
        None \<Rightarrow> None
      | Some a \<Rightarrow>
          (case block h a of
             None \<Rightarrow> None
           | Some b \<Rightarrow> if i < length b then Some (b ! i) else None))"

definition store :: "'a heap \<Rightarrow> raw_ptr \<Rightarrow> nat \<Rightarrow> 'a \<Rightarrow> 'a heap option" where
  "store h p i x =
     (case p of
        None \<Rightarrow> None
      | Some a \<Rightarrow>
          (case block h a of
             None \<Rightarrow> None
           | Some b \<Rightarrow> if i < length b then Some (h[a := Some (b[i := x])]) else None))"

definition deref :: "'a heap \<Rightarrow> pointer \<Rightarrow> 'a option" where
  "deref h q = load h (base q) (offset q)"

section \<open>The element type\<close>

text \<open>
  The template parameter \<^verbatim>\<open>Type\<close> enters the code in three ways: its value-initialised
  object \<^verbatim>\<open>Type {}\<close>, copy assignment (the target takes the value of the source, which
  keeps it), and move assignment \<^verbatim>\<open>*d = std::move(*s)\<close> (the target takes the value of
  the source; the source is left in a valid state that the type chooses).
  \<open>Type_moved T x y\<close> is the state in which a source holding \<open>x\<close> is left after it was
  move-assigned to a target that held \<open>y\<close>: \<open>x\<close> itself for \<^verbatim>\<open>int\<close>, the empty string
  for \<^verbatim>\<open>std::string\<close>, \<open>y\<close> for a move assignment written as a swap.
\<close>

record 'a Type =
  Type_default :: 'a
  Type_moved :: "'a \<Rightarrow> 'a \<Rightarrow> 'a"

section \<open>ArrayPtr\<close>

text \<open>
  \<^verbatim>\<open>array_ptr.h\<close> is included by \<^verbatim>\<open>simple_vector.h\<close> and is not among the sources. The
  vector uses its constructor from a length, \<^verbatim>\<open>Get\<close>, \<^verbatim>\<open>operator[]\<close>, \<^verbatim>\<open>Release\<close>,
  \<^verbatim>\<open>swap\<close>, its default constructor and its destructor. An \<^verbatim>\<open>ArrayPtr\<close> is the raw
  pointer it owns; the length of the block is the length of the heap entry.

  Modelled from the spec: the default constructor of the missing \<^verbatim>\<open>array_ptr.h\<close>. A
  default-constructed \<^verbatim>\<open>ArrayPtr\<close> owns no block ("if length == 0, raw_pointer may be
  null"): it is the null pointer \<open>None\<close>.
\<close>

type_synonym ArrayPtr = raw_ptr

text \<open>
  Modelled from the spec: the constructor \<^verbatim>\<open>ArrayPtr(size)\<close> of the missing
  \<^verbatim>\<open>array_ptr.h\<close>. "Construct(length): allocates storage for exactly length
  default-initialized elements of T; length == 0 is legal and yields an empty, safely
  destructible buffer", "zero-length allocation yields an empty (possibly null) buffer".
\<close>

definition ArrayPtr_new :: "'a Type \<Rightarrow> 'a heap \<Rightarrow> nat \<Rightarrow> 'a heap \<times> ArrayPtr" where
  "ArrayPtr_new T h n =
     (if n = 0 then (h, None)
      else (h @ [Some (replicate n (Type_default T))], Some (length h)))"

text \<open>
  Modelled from the spec: the destructor of the missing \<^verbatim>\<open>array_ptr.h\<close>. "Destruction
  releases the owned block exactly once"; releasing a block that is not live is undefined.
\<close>

definition ArrayPtr_delete :: "'a heap \<Rightarrow> ArrayPtr \<Rightarrow> 'a heap option" where
  "ArrayPtr_delete h p =
     (case p of
        None \<Rightarrow> Some h
      | Some a \<Rightarrow> (case block h a of None \<Rightarrow> None | Some b \<Rightarrow> Some (h[a := None])))"

text \<open>
  Modelled from the spec: \<^verbatim>\<open>Release\<close> of the missing \<^verbatim>\<open>array_ptr.h\<close>. "Release():
  relinquishes ownership of the raw block to the caller, leaving this buffer empty". The
  result is the raw pointer and the new state of the \<^verbatim>\<open>ArrayPtr\<close>.
\<close>

definition Release :: "ArrayPtr \<Rightarrow> raw_ptr \<times> ArrayPtr" where
  "Release p = (p, None)"

text \<open>
  Modelled from the spec: \<^verbatim>\<open>swap\<close> of the missing \<^verbatim>\<open>array_ptr.h\<close>. "Swap(other):
  exchanges owned blocks and lengths between two buffers with no element copying". The
  result is the new state of this \<^verbatim>\<open>ArrayPtr\<close> and of the other one.
\<close>

definition ArrayPtr_swap :: "ArrayPtr \<Rightarrow> ArrayPtr \<Rightarrow> ArrayPtr \<times> ArrayPtr" where
  "ArrayPtr_swap p other = (other, p)"

text \<open>
  Modelled from the spec: \<^verbatim>\<open>Get\<close> and \<^verbatim>\<open>operator[]\<close> of the missing \<^verbatim>\<open>array_ptr.h\<close>.
  "Access(index): returns a reference to the slot at index; no bounds check at this
  layer". \<^verbatim>\<open>Get\<close> returns the raw pointer, which is the \<^verbatim>\<open>ArrayPtr\<close> itself here;
  \<^verbatim>\<open>operator[]\<close> returns the reference to a slot, which is the pointer to it. Using
  the reference is checked by \<open>load\<close> and \<open>store\<close>.
\<close>

definition ArrayPtr_index :: "ArrayPtr \<Rightarrow> nat \<Rightarrow> pointer" where
  "ArrayPtr_index p index = Pointer p index"

section \<open>The algorithms of the standard library\<close>

text \<open>
  Each algorithm is the loop of its reference implementation, over the slots
  \<open>first, first + 1, ..., last - 1\<close> of one block. A range whose end lies before its
  start makes the loop of the library run off the block: undefined behaviour.

  \<^verbatim>\<open>std::fill\<close>: \<^verbatim>\<open>for (; first != last; ++first) *first = value;\<close>
\<close>

function std_fill :: "'a heap \<Rightarrow> raw_ptr \<Rightarrow> nat \<Rightarrow> nat \<Rightarrow> 'a \<Rightarrow> 'a heap option" where
  "std_fill h p first last' x =
     (if first = last' then Some h
      else if last' < first then None
      else do {
        h1 \<leftarrow> store h p first x;
        std_fill h1 p (first + 1) last' x
      })"
  by pat_completeness auto
termination
  by (relation "measure (\<lambda>(h, p, first, last', x). last' - first)") auto

declare std_fill.simps [simp del]

text \<open>\<^verbatim>\<open>std::generate\<close>: \<^verbatim>\<open>for (; first != last; ++first) *first = g();\<close>\<close>

function std_generate :: "'a heap \<Rightarrow> raw_ptr \<Rightarrow> nat \<Rightarrow> nat \<Rightarrow> (unit \<Rightarrow> 'a) \<Rightarrow> 'a heap option" where
  "std_generate h p first last' g =
     (if first = last' then Some h
      else if last' < first then None
      else do {
        h1 \<leftarrow> store h p first (g ());
        std_generate h1 p (first + 1) last' g
      })"
  by pat_completeness auto
termination
  by (relation "measure (\<lambda>(h, p, first, last', g). last' - first)") auto

declare std_generate.simps [simp del]

text \<open>
  \<^verbatim>\<open>std::copy\<close>: \<^verbatim>\<open>for (; first != last; ++first, ++d_first) *d_first = *first;\<close>
  With plain iterators (\<open>mv = None\<close>) the assignment copies and the source keeps its
  value; with \<^verbatim>\<open>std::make_move_iterator\<close> (\<open>mv = Some f\<close>) it is a move assignment, which
  leaves the source slot in the state \<open>f x y\<close>, where \<open>x\<close> is the value moved and \<open>y\<close>
  the value that the target object held before.
\<close>

definition move_source ::
  "('a \<Rightarrow> 'a \<Rightarrow> 'a) option \<Rightarrow> 'a heap \<Rightarrow> raw_ptr \<Rightarrow> nat \<Rightarrow> 'a \<Rightarrow> 'a \<Rightarrow> 'a heap option" where
  "move_source mv h src i x y =
     (case mv of None \<Rightarrow> Some h | Some f \<Rightarrow> store h src i (f x y))"

function std_copy ::
  "('a \<Rightarrow> 'a \<Rightarrow> 'a) option \<Rightarrow> 'a heap \<Rightarrow> raw_ptr \<Rightarrow> nat \<Rightarrow> nat \<Rightarrow> raw_ptr \<Rightarrow> nat \<Rightarrow> 'a heap option" where
  "std_copy mv h src first last' dst d_first =
     (if first = last' then Some h
      else if last' < first then None
      else do {
        x \<leftarrow> load h src first;
        y \<leftarrow> load h dst d_first;
        h1 \<leftarrow> store h dst d_first x;
        h2 \<leftarrow> move_source mv h1 src first x y;
        std_copy mv h2 src (first + 1) last' dst (d_first + 1)
      })"
  by pat_completeness auto
termination
  by (relation "measure (\<lambda>(mv, h, src, first, last', dst, d_first). last' - first)") auto

declare std_copy.simps [simp del]

text \<open>
  \<^verbatim>\<open>std::copy\<close> from a \<^verbatim>\<open>std::initializer_list\<close>, whose elements are not in
  the heap: the source is the list of its elements.
\<close>

fun std_copy_init :: "'a heap \<Rightarrow> 'a list \<Rightarrow> raw_ptr \<Rightarrow> nat \<Rightarrow> 'a heap option" where
  "std_copy_init h [] dst d_first = Some h"
| "std_copy_init h (x # xs) dst d_first =
     do {
       h1 \<leftarrow> store h dst d_first x;
       std_copy_init h1 xs dst (d_first + 1)
     }"

text \<open>
  \<^verbatim>\<open>std::copy_backward\<close>: \<^verbatim>\<open>while (first != last) *(--d_last) = *(--last);\<close>, here
  always with move iterators. Decrementing \<open>d_last\<close> below the start of the block is
  undefined. Besides the heap, the model returns the slots the loop touched, in order:
  for every step the source slot it moved from and the target slot it assigned. (The
  value \<open>y\<close> that the target held is not a read of the loop: it is what the move
  assignment of the element type finds in the object it assigns to.)
\<close>

datatype access = Moved_from nat | Assigned nat

function std_copy_backward ::
  "('a \<Rightarrow> 'a \<Rightarrow> 'a) \<Rightarrow> 'a heap \<Rightarrow> raw_ptr \<Rightarrow> nat \<Rightarrow> nat \<Rightarrow> raw_ptr \<Rightarrow> nat
     \<Rightarrow> ('a heap \<times> access list) option" where
  "std_copy_backward f h src first last' dst d_last =
     (if first = last' then Some (h, [])
      else if last' < first \<or> d_last = 0 then None
      else do {
        x \<leftarrow> load h src (last' - 1);
        y \<leftarrow> load h dst (d_last - 1);
        h1 \<leftarrow> store h dst (d_last - 1) x;
        h2 \<leftarrow> store h1 src (last' - 1) (f x y);
        (h3, tr) \<leftarrow> std_copy_backward f h2 src first (last' - 1) dst (d_last - 1);
        Some (h3, Moved_from (last' - 1) # Assigned (d_last - 1) # tr)
      })"
  by pat_completeness auto
termination
  by (relation "measure (\<lambda>(f, h, src, first, last', dst, d_last). last' - first)") auto

declare std_copy_backward.simps [simp del]

text \<open>
  \<^verbatim>\<open>std::equal\<close>:
  \<^verbatim>\<open>for (; first1 != last1; ++first1, ++first2) if (!(*first1 == *first2)) return false;\<close>
\<close>

function std_equal :: "'a heap \<Rightarrow> raw_ptr \<Rightarrow> nat \<Rightarrow> nat \<Rightarrow> raw_ptr \<Rightarrow> nat \<Rightarrow> bool option" where
  "std_equal h p first1 last1 q first2 =
     (if first1 = last1 then Some True
      else if last1 < first1 then None
      else do {
        x \<leftarrow> load h p first1;
        y \<leftarrow> load h q first2;
        if x = y then std_equal h p (first1 + 1) last1 q (first2 + 1) else Some False
      })"
  by pat_completeness auto
termination
  by (relation "measure (\<lambda>(h, p, first1, last1, q, first2). last1 - first1)") auto

declare std_equal.simps [simp del]

section \<open>SimpleVector\<close>

text \<open>
  The three data members of the class, \<^verbatim>\<open>size_\<close>, \<^verbatim>\<open>capacity_\<close> and \<^verbatim>\<open>data_\<close>
  (a name cannot end in an underscore here). The elements are in the heap block that
  \<open>sv_data\<close> owns.
\<close>

record SimpleVector =
  sv_size :: nat
  sv_capacity :: nat
  sv_data :: ArrayPtr

text \<open>
  \<^verbatim>\<open>begin()\<close> is \<^verbatim>\<open>data_.Get()\<close> and \<^verbatim>\<open>end()\<close> is \<^verbatim>\<open>data_.Get() + size_\<close>; the
  constant versions return the same pointers. (\<open>begin\<close> and \<open>end\<close> are keywords here.)
  Pointer arithmetic is arithmetic on the offset; only a dereference is checked against
  the block.
\<close>

definition vbegin :: "SimpleVector \<Rightarrow> pointer" where
  "vbegin v = Pointer (sv_data v) 0"

definition vend :: "SimpleVector \<Rightarrow> pointer" where
  "vend v = Pointer (sv_data v) (sv_size v)"

text \<open>The destructor is implicit: it destroys \<^verbatim>\<open>data_\<close>.\<close>

definition destroy :: "'a heap \<Rightarrow> SimpleVector \<Rightarrow> 'a heap option" where
  "destroy h v = ArrayPtr_delete h (sv_data v)"

definition swap :: "SimpleVector \<Rightarrow> SimpleVector \<Rightarrow> SimpleVector \<times> SimpleVector" where
  "swap v other =
     (let (d, od) = ArrayPtr_swap (sv_data v) (sv_data other)
      in (\<lparr>sv_size = sv_size other, sv_capacity = sv_capacity other, sv_data = d\<rparr>,
          \<lparr>sv_size = sv_size v, sv_capacity = sv_capacity v, sv_data = od\<rparr>))"

subsection \<open>Constructors\<close>

text \<open>\<^verbatim>\<open>SimpleVector() noexcept = default\<close>, with the default member initialisers.\<close>

definition SimpleVector_default :: SimpleVector where
  "SimpleVector_default = \<lparr>sv_size = 0, sv_capacity = 0, sv_data = None\<rparr>"

text \<open>\<^verbatim>\<open>explicit SimpleVector(ReserveProxyObj reserve)\<close>, for \<^verbatim>\<open>Reserve(capacity)\<close>.\<close>

definition SimpleVector_reserve :: "'a Type \<Rightarrow> 'a heap \<Rightarrow> nat \<Rightarrow> 'a heap \<times> SimpleVector" where
  "SimpleVector_reserve T h capacity =
     (let (h1, p) = ArrayPtr_new T h capacity
      in (h1, \<lparr>sv_size = 0, sv_capacity = capacity, sv_data = p\<rparr>))"

text \<open>\<^verbatim>\<open>SimpleVector(size_t size, const Type& value)\<close>\<close>

definition SimpleVector_fill ::
  "'a Type \<Rightarrow> 'a heap \<Rightarrow> nat \<Rightarrow> 'a \<Rightarrow> ('a heap \<times> SimpleVector) option" where
  "SimpleVector_fill T h size' x =
     (let (h1, p) = ArrayPtr_new T h size';
          v = \<lparr>sv_size = size', sv_capacity = size', sv_data = p\<rparr>
      in do {
        h2 \<leftarrow> std_fill h1 (sv_data v) 0 (sv_size v) x;
        Some (h2, v)
      })"

text \<open>\<^verbatim>\<open>explicit SimpleVector(size_t size) : SimpleVector(size, Type {})\<close>\<close>

definition SimpleVector_sized :: "'a Type \<Rightarrow> 'a heap \<Rightarrow> nat \<Rightarrow> ('a heap \<times> SimpleVector) option" where
  "SimpleVector_sized T h size' = SimpleVector_fill T h size' (Type_default T)"

text \<open>\<^verbatim>\<open>SimpleVector(std::initializer_list<Type> init) : SimpleVector(init.size())\<close>\<close>

definition SimpleVector_init ::
  "'a Type \<Rightarrow> 'a heap \<Rightarrow> 'a list \<Rightarrow> ('a heap \<times> SimpleVector) option" where
  "SimpleVector_init T h init =
     do {
       (h1, v) \<leftarrow> SimpleVector_sized T h (length init);
       h2 \<leftarrow> std_copy_init h1 init (sv_data v) 0;
       Some (h2, v)
     }"

text \<open>
  \<^verbatim>\<open>SimpleVector(const SimpleVector& other)\<close>: the new object starts from its default
  member initialisers, builds \<open>temp\<close>, swaps with it, and \<open>temp\<close> is destroyed at the
  end of the body.
\<close>

definition SimpleVector_copy ::
  "'a Type \<Rightarrow> 'a heap \<Rightarrow> SimpleVector \<Rightarrow> ('a heap \<times> SimpleVector) option" where
  "SimpleVector_copy T h other =
     do {
       (h1, temp) \<leftarrow> SimpleVector_sized T h (sv_size other);
       h2 \<leftarrow> std_copy None h1 (sv_data other) 0 (sv_size other) (sv_data temp) 0;
       let (this, temp') = swap SimpleVector_default temp;
       h3 \<leftarrow> destroy h2 temp';
       Some (h3, this)
     }"

text \<open>
  \<^verbatim>\<open>SimpleVector(SimpleVector&& other)\<close>: the result is the new object and the state in
  which \<open>other\<close> is left.
\<close>

definition SimpleVector_move :: "SimpleVector \<Rightarrow> SimpleVector \<times> SimpleVector" where
  "SimpleVector_move other =
     (let (raw, od) = Release (sv_data other)
      in (\<lparr>sv_size = sv_size other, sv_capacity = sv_capacity other, sv_data = raw\<rparr>,
          \<lparr>sv_size = 0, sv_capacity = 0, sv_data = od\<rparr>))"

subsection \<open>Assignment\<close>

text \<open>
  \<^verbatim>\<open>operator=(const SimpleVector& rhs)\<close> compares the addresses of the two objects, so
  the vectors themselves are in a store here, from object addresses to their states. The
  class declares this copy assignment and no other assignment operator. Since it declares
  a copy constructor, a copy assignment and a move constructor, the compiler declares no
  move assignment either, and \<^verbatim>\<open>a = std::move(b)\<close> binds \<open>b\<close> to the parameter of this
  operator.
\<close>

type_synonym objects = "nat \<Rightarrow> SimpleVector"

definition assign ::
  "'a Type \<Rightarrow> 'a heap \<Rightarrow> objects \<Rightarrow> nat \<Rightarrow> nat \<Rightarrow> ('a heap \<times> objects) option" where
  "assign T h s this rhs =
     (if this \<noteq> rhs then
        do {
          (h1, temp) \<leftarrow> SimpleVector_copy T h (s rhs);
          let (this', temp') = swap (s this) temp;
          h2 \<leftarrow> destroy h1 temp';
          Some (h2, s(this := this'))
        }
      else Some (h, s))"

subsection \<open>Access\<close>

definition GetSize :: "SimpleVector \<Rightarrow> nat" where
  "GetSize v = sv_size v"

definition GetCapacity :: "SimpleVector \<Rightarrow> nat" where
  "GetCapacity v = sv_capacity v"

definition IsEmpty :: "SimpleVector \<Rightarrow> bool" where
  "IsEmpty v = (sv_size v = 0)"

text \<open>
  \<^verbatim>\<open>operator[]\<close> of the vector, with its assertion; the result is the reference to the
  slot.
\<close>

definition subscript :: "SimpleVector \<Rightarrow> nat \<Rightarrow> pointer option" where
  "subscript v index = (if index < sv_size v then Some (ArrayPtr_index (sv_data v) index) else None)"

text \<open>
  \<^verbatim>\<open>At\<close> throws \<^verbatim>\<open>std::out_of_range\<close>, constructed from a string literal: the bytes of
  the message, in the UTF-8 encoding of the source file. Otherwise it returns the
  reference \<^verbatim>\<open>*(data_.Get() + index)\<close>. It writes nothing.
\<close>

datatype exception = out_of_range string

definition At_message :: string where
  "At_message = map char_of
     [0xd0, 0x92, 0xd1, 0x8b, 0xd1, 0x85, 0xd0, 0xbe, 0xd0, 0xb4, 0x20, 0xd0, 0xb7, 0xd0,
      0xb0, 0x20, 0xd0, 0xbf, 0xd1, 0x80, 0xd0, 0xb5, 0xd0, 0xb4, 0xd0, 0xb5, 0xd0, 0xbb,
      0xd1, 0x8b, 0x20, 0xd0, 0xbc, 0xd0, 0xb0, 0xd1, 0x81, 0xd1, 0x81, 0xd0, 0xb8, 0xd0,
      0xb2, 0xd0, 0xb0 :: nat]"

definition At :: "SimpleVector \<Rightarrow> nat \<Rightarrow> exception + pointer" where
  "At v index =
     (if index \<ge> sv_size v then Inl (out_of_range At_message)
      else Inr (Pointer (sv_data v) index))"

subsection \<open>Size and capacity\<close>

definition Clear :: "SimpleVector \<Rightarrow> SimpleVector" where
  "Clear v = v\<lparr>sv_size := 0\<rparr>"

text \<open>
  \<^verbatim>\<open>IncreaseCapacity\<close>: \<open>new_data\<close> holds the old block after the swap and is destroyed
  at the end of the body.
\<close>

definition IncreaseCapacity ::
  "'a Type \<Rightarrow> 'a heap \<Rightarrow> SimpleVector \<Rightarrow> nat \<Rightarrow> ('a heap \<times> SimpleVector) option" where
  "IncreaseCapacity T h v new_capacity =
     (let (h1, new_data) = ArrayPtr_new T h new_capacity
      in do {
        h2 \<leftarrow> std_copy (Some (Type_moved T)) h1 (sv_data v) 0 (sv_size v) new_data 0;
        let (new_data', data') = ArrayPtr_swap new_data (sv_data v);
        h3 \<leftarrow> ArrayPtr_delete h2 new_data';
        Some (h3, v\<lparr>sv_data := data', sv_capacity := new_capacity\<rparr>)
      })"

definition Resize ::
  "'a Type \<Rightarrow> 'a heap \<Rightarrow> SimpleVector \<Rightarrow> nat \<Rightarrow> ('a heap \<times> SimpleVector) option" where
  "Resize T h v new_size =
     (if new_size \<le> sv_size v then Some (h, v\<lparr>sv_size := new_size\<rparr>)
      else do {
        (h1, v1) \<leftarrow>
          (if new_size \<le> sv_capacity v then
             do {
               h1 \<leftarrow> std_generate h (sv_data v) (sv_size v) (sv_size v + new_size - sv_size v)
                      (\<lambda>_. Type_default T);
               Some (h1, v)
             }
           else
             (let new_capacity = max new_size (sv_capacity v * 2)
              in IncreaseCapacity T h v new_capacity));
        Some (h1, v1\<lparr>sv_size := new_size\<rparr>)
      })"

definition Reserve ::
  "'a Type \<Rightarrow> 'a heap \<Rightarrow> SimpleVector \<Rightarrow> nat \<Rightarrow> ('a heap \<times> SimpleVector) option" where
  "Reserve T h v new_capacity =
     (if new_capacity > sv_capacity v then IncreaseCapacity T h v new_capacity
      else Some (h, v))"

subsection \<open>Changing the elements\<close>

text \<open>
  \<^verbatim>\<open>PushBack\<close> and \<^verbatim>\<open>Insert\<close> take their argument by reference, \<^verbatim>\<open>const Type&\<close> or
  \<^verbatim>\<open>Type&&\<close>, and read it in the assignment that stores it, after the block may have been
  reallocated or its elements shifted. So the argument of the model is the object the
  reference is bound to: an object outside the heap of blocks (a local variable, a
  temporary), given by its value, which no operation on a vector changes; or a slot of a
  block, given by the pointer to it, which may be a slot of the vector itself as in
  \<^verbatim>\<open>v.PushBack(v[0])\<close>.
\<close>

datatype 'a argument = Outside 'a | Element pointer

fun read_argument :: "'a heap \<Rightarrow> 'a argument \<Rightarrow> 'a option" where
  "read_argument h (Outside x) = Some x"
| "read_argument h (Element r) = deref h r"

text \<open>
  The copy assignment \<^verbatim>\<open>*(p + i) = item\<close>, and the move assignment
  \<^verbatim>\<open>*(p + i) = std::move(item)\<close>, which leaves the object of the argument in its
  moved-from state; for an object outside the heap that state is not recorded.
\<close>

definition assign_copy :: "'a heap \<Rightarrow> raw_ptr \<Rightarrow> nat \<Rightarrow> 'a argument \<Rightarrow> 'a heap option" where
  "assign_copy h p i item =
     do {
       x \<leftarrow> read_argument h item;
       store h p i x
     }"

definition assign_move ::
  "'a Type \<Rightarrow> 'a heap \<Rightarrow> raw_ptr \<Rightarrow> nat \<Rightarrow> 'a argument \<Rightarrow> 'a heap option" where
  "assign_move T h p i item =
     do {
       x \<leftarrow> read_argument h item;
       y \<leftarrow> load h p i;
       h1 \<leftarrow> store h p i x;
       (case item of
          Outside _ \<Rightarrow> Some h1
        | Element r \<Rightarrow> store h1 (base r) (offset r) (Type_moved T x y))
     }"

text \<open>\<^verbatim>\<open>void PushBack(const Type& item)\<close>\<close>

definition PushBack ::
  "'a Type \<Rightarrow> 'a heap \<Rightarrow> SimpleVector \<Rightarrow> 'a argument \<Rightarrow> ('a heap \<times> SimpleVector) option" where
  "PushBack T h v item =
     do {
       (h1, v1) \<leftarrow>
         (if sv_size v \<ge> sv_capacity v then
            (let new_capacity = max (sv_size v + 1) (sv_capacity v * 2)
             in IncreaseCapacity T h v new_capacity)
          else Some (h, v));
       h2 \<leftarrow> assign_copy h1 (sv_data v1) (sv_size v1) item;
       Some (h2, v1\<lparr>sv_size := sv_size v1 + 1\<rparr>)
     }"

text \<open>\<^verbatim>\<open>void PushBack(Type&& item)\<close>\<close>

definition PushBack_rvalue ::
  "'a Type \<Rightarrow> 'a heap \<Rightarrow> SimpleVector \<Rightarrow> 'a argument \<Rightarrow> ('a heap \<times> SimpleVector) option" where
  "PushBack_rvalue T h v item =
     do {
       (h1, v1) \<leftarrow>
         (if sv_size v \<ge> sv_capacity v then
            (let new_capacity = max (sv_size v + 1) (sv_capacity v * 2)
             in IncreaseCapacity T h v new_capacity)
          else Some (h, v));
       h2 \<leftarrow> assign_move T h1 (sv_data v1) (sv_size v1) item;
       Some (h2, v1\<lparr>sv_size := sv_size v1 + 1\<rparr>)
     }"

definition PopBack :: "SimpleVector \<Rightarrow> SimpleVector option" where
  "PopBack v = (if sv_size v > 0 then Some (v\<lparr>sv_size := sv_size v - 1\<rparr>) else None)"

text \<open>
  Iterators are compared and subtracted inside one block only; an iterator into another
  block fails the assertion.
\<close>

text \<open>\<^verbatim>\<open>Iterator Insert(ConstIterator pos, const Type& value)\<close>\<close>

definition Insert ::
  "'a Type \<Rightarrow> 'a heap \<Rightarrow> SimpleVector \<Rightarrow> pointer \<Rightarrow> 'a argument
     \<Rightarrow> ('a heap \<times> SimpleVector \<times> pointer) option" where
  "Insert T h v pos val =
     (if \<not> (base pos = sv_data v \<and> offset pos \<ge> offset (vbegin v)
             \<and> offset pos \<le> offset (vend v)) then None
      else
        (let index = offset pos - offset (vbegin v)
         in if sv_size v < sv_capacity v then
              do {
                (h1, tr) \<leftarrow> std_copy_backward (Type_moved T) h
                              (sv_data v) index (sv_size v) (sv_data v) (sv_size v + 1);
                h2 \<leftarrow> assign_copy h1 (sv_data v) index val;
                let v' = v\<lparr>sv_size := sv_size v + 1\<rparr>;
                Some (h2, v', ArrayPtr_index (sv_data v') index)
              }
            else
              (let new_capacity = max (sv_size v + 1) (sv_capacity v * 2);
                   (h1, new_data) = ArrayPtr_new T h new_capacity
               in do {
                 h2 \<leftarrow> std_copy (Some (Type_moved T)) h1 (sv_data v) 0 index new_data 0;
                 h3 \<leftarrow> assign_copy h2 new_data index val;
                 h4 \<leftarrow> std_copy (Some (Type_moved T)) h3
                         (sv_data v) index (sv_size v) new_data (index + 1);
                 let (new_data', data') = ArrayPtr_swap new_data (sv_data v);
                 h5 \<leftarrow> ArrayPtr_delete h4 new_data';
                 let v' = v\<lparr>sv_data := data', sv_capacity := new_capacity, sv_size := sv_size v + 1\<rparr>;
                 Some (h5, v', ArrayPtr_index (sv_data v') index)
               })))"

text \<open>\<^verbatim>\<open>Iterator Insert(ConstIterator pos, Type&& value)\<close>\<close>

definition Insert_rvalue ::
  "'a Type \<Rightarrow> 'a heap \<Rightarrow> SimpleVector \<Rightarrow> pointer \<Rightarrow> 'a argument
     \<Rightarrow> ('a heap \<times> SimpleVector \<times> pointer) option" where
  "Insert_rvalue T h v pos val =
     (if \<not> (base pos = sv_data v \<and> offset pos \<ge> offset (vbegin v)
             \<and> offset pos \<le> offset (vend v)) then None
      else
        (let index = offset pos - offset (vbegin v)
         in if sv_size v < sv_capacity v then
              do {
                (h1, tr) \<leftarrow> std_copy_backward (Type_moved T) h
                              (sv_data v) index (sv_size v) (sv_data v) (sv_size v + 1);
                h2 \<leftarrow> assign_move T h1 (sv_data v) index val;
                let v' = v\<lparr>sv_size := sv_size v + 1\<rparr>;
                Some (h2, v', ArrayPtr_index (sv_data v') index)
              }
            else
              (let new_capacity = max (sv_size v + 1) (sv_capacity v * 2);
                   (h1, new_data) = ArrayPtr_new T h new_capacity
               in do {
                 h2 \<leftarrow> std_copy (Some (Type_moved T)) h1 (sv_data v) 0 index new_data 0;
                 h3 \<leftarrow> assign_move T h2 new_data index val;
                 h4 \<leftarrow> std_copy (Some (Type_moved T)) h3
                         (sv_data v) index (sv_size v) new_data (index + 1);
                 let (new_data', data') = ArrayPtr_swap new_data (sv_data v);
                 h5 \<leftarrow> ArrayPtr_delete h4 new_data';
                 let v' = v\<lparr>sv_data := data', sv_capacity := new_capacity, sv_size := sv_size v + 1\<rparr>;
                 Some (h5, v', ArrayPtr_index (sv_data v') index)
               })))"

text \<open>\<^verbatim>\<open>Iterator Erase(ConstIterator pos)\<close>\<close>

definition Erase ::
  "'a Type \<Rightarrow> 'a heap \<Rightarrow> SimpleVector \<Rightarrow> pointer \<Rightarrow> ('a heap \<times> SimpleVector \<times> pointer) option" where
  "Erase T h v pos =
     (if \<not> (base pos = sv_data v \<and> offset pos \<ge> offset (vbegin v)
             \<and> offset pos < offset (vend v)) then None
      else
        (let index = offset pos - offset (vbegin v)
         in do {
           h1 \<leftarrow> std_copy (Some (Type_moved T)) h
                   (sv_data v) (index + 1) (sv_size v) (sv_data v) index;
           let v' = v\<lparr>sv_size := sv_size v - 1\<rparr>;
           Some (h1, v', ArrayPtr_index (sv_data v') index)
         }))"

subsection \<open>Comparison\<close>

text \<open>\<^verbatim>\<open>operator==\<close>\<close>

definition equal_op :: "'a heap \<Rightarrow> SimpleVector \<Rightarrow> SimpleVector \<Rightarrow> bool option" where
  "equal_op h lhs rhs =
     (if GetSize lhs \<noteq> GetSize rhs then Some False
      else std_equal h (sv_data lhs) 0 (sv_size lhs) (sv_data rhs) 0)"

section \<open>The state of a vector\<close>

text \<open>
  The slots a raw pointer gives access to: those of its block if that is live, and none
  for the null pointer. \<open>put\<close> replaces the elements of a block. Both are used to state
  what the operations do; the operations themselves go through \<open>load\<close> and \<open>store\<close>.
\<close>

definition contents :: "'a heap \<Rightarrow> raw_ptr \<Rightarrow> 'a list option" where
  "contents h p = (case p of None \<Rightarrow> Some [] | Some a \<Rightarrow> block h a)"

definition put :: "'a heap \<Rightarrow> raw_ptr \<Rightarrow> 'a list \<Rightarrow> 'a heap" where
  "put h p b = (case p of None \<Rightarrow> h | Some a \<Rightarrow> h[a := Some b])"

text \<open>
  The block of a vector, the invariant of the class, and the sequence a user sees: the
  first \<open>sv_size\<close> slots of the block.
\<close>

definition buffer :: "'a heap \<Rightarrow> SimpleVector \<Rightarrow> 'a list option" where
  "buffer h v = contents h (sv_data v)"

definition invariant :: "'a heap \<Rightarrow> SimpleVector \<Rightarrow> bool" where
  "invariant h v =
     (sv_size v \<le> sv_capacity v \<and>
      (case buffer h v of None \<Rightarrow> False | Some b \<Rightarrow> length b = sv_capacity v))"

definition elements :: "'a heap \<Rightarrow> SimpleVector \<Rightarrow> 'a list" where
  "elements h v = (case buffer h v of None \<Rightarrow> [] | Some b \<Rightarrow> take (sv_size v) b)"

text \<open>The argument of a call is a slot of the block of the vector itself.\<close>

fun inside :: "SimpleVector \<Rightarrow> 'a argument \<Rightarrow> bool" where
  "inside v (Outside x) = False"
| "inside v (Element r) = (base r = sv_data v)"

text \<open>
  Two vectors own different blocks: their pointers differ, or one of them is null.
\<close>

definition separate :: "SimpleVector \<Rightarrow> SimpleVector \<Rightarrow> bool" where
  "separate v w = (sv_data v \<noteq> sv_data w \<or> sv_data v = None)"

text \<open>
  What a step on the vector \<open>v\<close> may do to the heap: the block of the vector afterwards is
  the one it had or one that was not live before, and every other live block is as it
  was.
\<close>

definition step_of :: "'a heap \<Rightarrow> SimpleVector \<Rightarrow> 'a heap \<Rightarrow> SimpleVector \<Rightarrow> bool" where
  "step_of h v h' v' =
     ((sv_data v' = sv_data v \<or> sv_data v' = None \<or> contents h (sv_data v') = None) \<and>
      (\<forall>q. q \<noteq> sv_data v \<longrightarrow> contents h q \<noteq> None \<longrightarrow> contents h' q = contents h q))"

section \<open>Runs of operations\<close>

text \<open>
  \<open>k\<close> calls of \<^verbatim>\<open>PushBack\<close>, one for each element of a list of values that are not
  elements of a vector.
\<close>

fun PushBack_all ::
  "'a Type \<Rightarrow> 'a heap \<Rightarrow> SimpleVector \<Rightarrow> 'a list \<Rightarrow> ('a heap \<times> SimpleVector) option" where
  "PushBack_all T h v [] = Some (h, v)"
| "PushBack_all T h v (x # xs) =
     do {
       (h1, v1) \<leftarrow> PushBack T h v (Outside x);
       PushBack_all T h1 v1 xs
     }"

text \<open>
  The calls that change a vector or its elements, with positions given by their index:
  \<^verbatim>\<open>v.Insert(v.begin() + i, x)\<close>, \<^verbatim>\<open>v.Erase(v.begin() + i)\<close>, \<^verbatim>\<open>v[i] = x\<close> and
  \<^verbatim>\<open>v.At(i) = x\<close>. A call that throws leaves the vector as it is.
\<close>

datatype 'a mutation =
    Do_PushBack "'a argument"
  | Do_PopBack
  | Do_Insert nat "'a argument"
  | Do_Erase nat
  | Do_Resize nat
  | Do_Reserve nat
  | Do_Clear
  | Do_subscript nat 'a
  | Do_At nat 'a

fun mutate ::
  "'a Type \<Rightarrow> 'a heap \<Rightarrow> SimpleVector \<Rightarrow> 'a mutation \<Rightarrow> ('a heap \<times> SimpleVector) option" where
  "mutate T h v (Do_PushBack x) = PushBack T h v x"
| "mutate T h v Do_PopBack = do { v' \<leftarrow> PopBack v; Some (h, v') }"
| "mutate T h v (Do_Insert i x) =
     do {
       (h', v', it) \<leftarrow> Insert T h v (Pointer (sv_data v) i) x;
       Some (h', v')
     }"
| "mutate T h v (Do_Erase i) =
     do {
       (h', v', it) \<leftarrow> Erase T h v (Pointer (sv_data v) i);
       Some (h', v')
     }"
| "mutate T h v (Do_Resize n) = Resize T h v n"
| "mutate T h v (Do_Reserve n) = Reserve T h v n"
| "mutate T h v Do_Clear = Some (h, Clear v)"
| "mutate T h v (Do_subscript i x) =
     do {
       r \<leftarrow> subscript v i;
       h' \<leftarrow> store h (base r) (offset r) x;
       Some (h', v)
     }"
| "mutate T h v (Do_At i x) =
     (case At v i of
        Inl e \<Rightarrow> Some (h, v)
      | Inr r \<Rightarrow> do { h' \<leftarrow> store h (base r) (offset r) x; Some (h', v) })"

fun mutate_all ::
  "'a Type \<Rightarrow> 'a heap \<Rightarrow> SimpleVector \<Rightarrow> 'a mutation list \<Rightarrow> ('a heap \<times> SimpleVector) option" where
  "mutate_all T h v [] = Some (h, v)"
| "mutate_all T h v (m # ms) =
     do {
       (h1, v1) \<leftarrow> mutate T h v m;
       mutate_all T h1 v1 ms
     }"

section \<open>Concrete inputs\<close>

text \<open>
  \<^verbatim>\<open>int\<close> as the element type: \<^verbatim>\<open>int {}\<close> is 0 and a moved-from \<^verbatim>\<open>int\<close> keeps its value.
  A heap with two blocks, a vector of three elements with room for a fourth, a full vector
  of three elements, and a store of objects: both vectors, and default-constructed
  vectors everywhere else.
\<close>

definition int_Type :: "int Type" where
  "int_Type = \<lparr>Type_default = 0, Type_moved = (\<lambda>x y. x)\<rparr>"

text \<open>
  An element type whose moved-from objects are in the default state, as those of
  \<^verbatim>\<open>std::string\<close> are in practice; the values are numbers, 0 for the empty one.
\<close>

definition emptied_Type :: "int Type" where
  "emptied_Type = \<lparr>Type_default = 0, Type_moved = (\<lambda>x y. 0)\<rparr>"

definition example_heap :: "int heap" where
  "example_heap = [Some [1, 2, 3, 0], Some [4, 5, 6]]"

definition example_vector :: SimpleVector where
  "example_vector = \<lparr>sv_size = 3, sv_capacity = 4, sv_data = Some 0\<rparr>"

definition full_vector :: SimpleVector where
  "full_vector = \<lparr>sv_size = 3, sv_capacity = 3, sv_data = Some 1\<rparr>"

definition example_objects :: objects where
  "example_objects = (\<lambda>_. SimpleVector_default)(1 := example_vector, 2 := full_vector)"

text \<open>A run of calls on one vector.\<close>

definition example_mutations :: "int mutation list" where
  "example_mutations =
     [Do_subscript 0 9, Do_PushBack (Outside 7), Do_Erase 1, Do_Clear,
      Do_PushBack (Element (Pointer (Some 0) 0)), Do_Insert 0 (Outside 8),
      Do_Insert 0 (Element (Pointer (Some 3) 1)), Do_Resize 8, Do_PopBack, Do_At 2 5,
      Do_Reserve 20]"

text \<open>What a user sees of one object after an assignment: its size, capacity and elements.\<close>

definition observe :: "('a heap \<times> objects) option \<Rightarrow> nat \<Rightarrow> (nat \<times> nat \<times> 'a list) option" where
  "observe r a =
     (case r of
        None \<Rightarrow> None
      | Some (h, s) \<Rightarrow> Some (sv_size (s a), sv_capacity (s a), elements h (s a)))"

section \<open>Loads, stores and the loops\<close>

lemma contents_put_same:
  "contents h p = Some b0 \<Longrightarrow> length b = length b0 \<Longrightarrow> contents (put h p b) p = Some b"
  by (auto simp: contents_def put_def block_def split: option.splits if_splits)

lemma contents_put_other: "q \<noteq> p \<Longrightarrow> contents (put h p b) q = contents h q"
  by (cases p; cases q) (auto simp: contents_def put_def block_def nth_list_update)

lemma put_put: "put (put h p b) p b' = put h p b'"
  by (simp add: put_def split: option.splits)

lemma put_swap: "q \<noteq> p \<Longrightarrow> put (put h p b) q c = put (put h q c) p b"
  by (cases p; cases q) (auto simp: put_def list_update_swap)

lemma put_same: "contents h p = Some b \<Longrightarrow> put h p b = h"
  by (auto simp: contents_def put_def block_def list_update_same_conv split: option.splits if_splits)

lemma load_contents:
  "contents h p = Some b \<Longrightarrow> i < length b \<Longrightarrow> load h p i = Some (b ! i)"
  by (auto simp: contents_def load_def split: option.splits)

lemma store_contents:
  "contents h p = Some b \<Longrightarrow> i < length b \<Longrightarrow> store h p i x = Some (put h p (b[i := x]))"
  by (auto simp: contents_def store_def put_def split: option.splits)

lemma assign_copy_Outside [simp]: "assign_copy h p i (Outside x) = store h p i x"
  by (simp add: assign_copy_def)

lemma std_fill_contents:
  "contents h p = Some b \<Longrightarrow> first + n \<le> length b \<Longrightarrow>
   std_fill h p first (first + n) x = Some (put h p (take first b @ replicate n x @ drop (first + n) b))"
proof (induction n arbitrary: h first b)
  case 0
  then show ?case by (simp add: put_same std_fill.simps)
next
  case (Suc n)
  have lt: "first < length b" using Suc.prems by simp
  let ?b1 = "b[first := x]"
  have c1: "contents (put h p ?b1) p = Some ?b1"
    using Suc.prems(1) by (simp add: contents_put_same)
  have "std_fill h p first (first + Suc n) x = std_fill (put h p ?b1) p (first + 1) (first + 1 + n) x"
    by (subst std_fill.simps) (simp add: store_contents[OF Suc.prems(1) lt])
  also have "\<dots> = Some (put (put h p ?b1) p (take (first + 1) ?b1 @ replicate n x @ drop (first + 1 + n) ?b1))"
    using Suc.prems by (intro Suc.IH[OF c1]) simp
  also have "take (first + 1) ?b1 @ replicate n x @ drop (first + 1 + n) ?b1
      = take first b @ replicate (Suc n) x @ drop (first + Suc n) b"
    using lt by (simp add: take_Suc_conv_app_nth)
  finally show ?case by (simp add: put_put)
qed


lemma std_generate_contents:
  "contents h p = Some b \<Longrightarrow> first + n \<le> length b \<Longrightarrow>
   std_generate h p first (first + n) g
     = Some (put h p (take first b @ replicate n (g ()) @ drop (first + n) b))"
proof (induction n arbitrary: h first b)
  case 0
  then show ?case by (simp add: put_same std_generate.simps)
next
  case (Suc n)
  have lt: "first < length b" using Suc.prems by simp
  let ?b1 = "b[first := g ()]"
  have c1: "contents (put h p ?b1) p = Some ?b1"
    using Suc.prems(1) by (simp add: contents_put_same)
  have "std_generate h p first (first + Suc n) g
      = std_generate (put h p ?b1) p (first + 1) (first + 1 + n) g"
    by (subst std_generate.simps) (simp add: store_contents[OF Suc.prems(1) lt])
  also have "\<dots> = Some (put (put h p ?b1) p
      (take (first + 1) ?b1 @ replicate n (g ()) @ drop (first + 1 + n) ?b1))"
    using Suc.prems by (intro Suc.IH[OF c1]) simp
  also have "take (first + 1) ?b1 @ replicate n (g ()) @ drop (first + 1 + n) ?b1
      = take first b @ replicate (Suc n) (g ()) @ drop (first + Suc n) b"
    using lt by (simp add: take_Suc_conv_app_nth)
  finally show ?case by (simp add: put_put)
qed

lemma std_copy_init_contents:
  "contents h p = Some b \<Longrightarrow> d + length xs \<le> length b \<Longrightarrow>
   std_copy_init h xs p d = Some (put h p (take d b @ xs @ drop (d + length xs) b))"
proof (induction xs arbitrary: h d b)
  case Nil
  then show ?case by (simp add: put_same)
next
  case (Cons x xs)
  have lt: "d < length b" using Cons.prems by simp
  let ?b1 = "b[d := x]"
  have c1: "contents (put h p ?b1) p = Some ?b1"
    using Cons.prems(1) by (simp add: contents_put_same)
  have "std_copy_init h (x # xs) p d = std_copy_init (put h p ?b1) xs p (d + 1)"
    by (simp add: store_contents[OF Cons.prems(1) lt])
  also have "\<dots> = Some (put (put h p ?b1) p
      (take (d + 1) ?b1 @ xs @ drop (d + 1 + length xs) ?b1))"
    using Cons.prems by (intro Cons.IH[OF c1]) simp
  also have "take (d + 1) ?b1 @ xs @ drop (d + 1 + length xs) ?b1
      = take d b @ (x # xs) @ drop (d + length (x # xs)) b"
    using lt by (simp add: take_Suc_conv_app_nth)
  finally show ?case by (simp add: put_put)
qed

lemma move_source_contents:
  assumes "contents h p = Some b" "i < length b"
  shows "\<exists>z. move_source mv h p i x y = Some (put h p (b[i := z])) \<and> (mv = None \<longrightarrow> z = b ! i)"
proof (cases mv)
  case None
  then show ?thesis using assms by (auto simp: move_source_def put_same)
next
  case (Some f)
  then show ?thesis using assms by (auto simp: move_source_def store_contents)
qed

lemma std_copy_distinct:
  assumes "contents h src = Some bs" "contents h dst = Some bt"
    and "src \<noteq> dst \<or> n = 0"
    and "f + n \<le> length bs" "d + n \<le> length bt"
  shows "\<exists>bs'. std_copy mv h src f (f + n) dst d
            = Some (put (put h dst (take d bt @ take n (drop f bs) @ drop (d + n) bt)) src bs')
          \<and> length bs' = length bs
          \<and> (\<forall>j < length bs. j < f \<or> f + n \<le> j \<longrightarrow> bs' ! j = bs ! j)
          \<and> (mv = None \<longrightarrow> bs' = bs)"
  using assms
proof (induction n arbitrary: h f d bs bt)
  case 0
  have "put (put h dst bt) src bs = h"
    using "0.prems"(1,2) by (metis contents_put_other contents_put_same put_same)
  then show ?case by (intro exI[of _ bs]) (simp add: std_copy.simps)
next
  case (Suc n)
  have ne: "src \<noteq> dst" using Suc.prems(3) by simp
  have ltf: "f < length bs" and ltd: "d < length bt" using Suc.prems by simp_all
  let ?x = "bs ! f"
  let ?bt1 = "bt[d := ?x]"
  let ?h1 = "put h dst ?bt1"
  have cs1: "contents ?h1 src = Some bs"
    using ne Suc.prems(1) by (simp add: contents_put_other)
  obtain z where z: "move_source mv ?h1 src f ?x (bt ! d) = Some (put ?h1 src (bs[f := z]))"
      "mv = None \<longrightarrow> z = bs ! f"
    using move_source_contents[OF cs1 ltf] by blast
  let ?bs2 = "bs[f := z]"
  let ?h2 = "put ?h1 src ?bs2"
  have cs2: "contents ?h2 src = Some ?bs2"
    using cs1 by (simp add: contents_put_same)
  have ct2: "contents ?h2 dst = Some ?bt1"
    using ne Suc.prems(2) by (simp add: contents_put_other contents_put_same)
  have unfold: "std_copy mv h src f (f + Suc n) dst d
      = std_copy mv ?h2 src (f + 1) (f + 1 + n) dst (d + 1)"
    by (subst std_copy.simps)
       (simp add: load_contents[OF Suc.prems(1) ltf] load_contents[OF Suc.prems(2) ltd]
          store_contents[OF Suc.prems(2) ltd] z)
  obtain bs' where ih:
      "std_copy mv ?h2 src (f + 1) (f + 1 + n) dst (d + 1)
         = Some (put (put ?h2 dst (take (d + 1) ?bt1 @ take n (drop (f + 1) ?bs2)
                  @ drop (d + 1 + n) ?bt1)) src bs')"
      "length bs' = length ?bs2"
      "\<forall>j < length ?bs2. j < f + 1 \<or> f + 1 + n \<le> j \<longrightarrow> bs' ! j = ?bs2 ! j"
      "mv = None \<longrightarrow> bs' = ?bs2"
    using Suc.IH[OF cs2 ct2, of "f + 1" "d + 1"] ne Suc.prems(4,5) by auto
  have lists: "take (d + 1) ?bt1 @ take n (drop (f + 1) ?bs2) @ drop (d + 1 + n) ?bt1
      = take d bt @ take (Suc n) (drop f bs) @ drop (d + Suc n) bt"
    using ltf ltd by (simp add: take_Suc_conv_app_nth flip: Cons_nth_drop_Suc)
  have heap: "put (put ?h2 dst B) src bs' = put (put h dst B) src bs'" for B
    using ne by (metis put_put put_swap)
  have "\<forall>j < length bs. j < f \<or> f + Suc n \<le> j \<longrightarrow> bs' ! j = bs ! j"
    using ih(3) by auto
  moreover have "mv = None \<longrightarrow> bs' = bs"
    using ih(4) z(2) by auto
  ultimately show ?case
    using ih(1,2) unfolding unfold lists heap by (intro exI[of _ bs']) simp
qed

lemma std_copy_left:
  assumes "contents h p = Some b" "d + 1 + n \<le> length b"
  shows "\<exists>b'. std_copy mv h p (d + 1) (d + 1 + n) p d = Some (put h p b')
          \<and> length b' = length b
          \<and> (\<forall>j < length b. j < d \<or> d + 1 + n \<le> j \<longrightarrow> b' ! j = b ! j)
          \<and> (\<forall>j. d \<le> j \<and> j < d + n \<longrightarrow> b' ! j = b ! (j + 1))"
  using assms
proof (induction n arbitrary: h d b)
  case 0
  then show ?case by (intro exI[of _ b]) (auto simp: put_same std_copy.simps std_copy_backward.simps)
next
  case (Suc n)
  have lt1: "d + 1 < length b" and lt0: "d < length b" using Suc.prems by simp_all
  let ?x = "b ! (d + 1)"
  let ?b1 = "b[d := ?x]"
  let ?h1 = "put h p ?b1"
  have c1: "contents ?h1 p = Some ?b1"
    using Suc.prems(1) by (simp add: contents_put_same)
  obtain z where z: "move_source mv ?h1 p (d + 1) ?x (b ! d) = Some (put ?h1 p (?b1[d + 1 := z]))"
    using move_source_contents[OF c1, of "d + 1" mv ?x "b ! d"] lt1 by auto
  let ?b2 = "?b1[d + 1 := z]"
  let ?h2 = "put h p ?b2"
  have h2: "put ?h1 p ?b2 = ?h2" by (simp add: put_put)
  have c2: "contents ?h2 p = Some ?b2"
    using Suc.prems(1) by (simp add: contents_put_same)
  have unfold: "std_copy mv h p (d + 1) (d + 1 + Suc n) p d
      = std_copy mv ?h2 p (d + 1 + 1) (d + 1 + 1 + n) p (d + 1)"
    apply (subst std_copy.simps)
    using load_contents[OF Suc.prems(1) lt1] load_contents[OF Suc.prems(1) lt0]
          store_contents[OF Suc.prems(1) lt0, of ?x] z h2
    by simp
  obtain b' where ih:
      "std_copy mv ?h2 p (d + 1 + 1) (d + 1 + 1 + n) p (d + 1) = Some (put ?h2 p b')"
      "length b' = length ?b2"
      "\<forall>j < length ?b2. j < d + 1 \<or> d + 1 + 1 + n \<le> j \<longrightarrow> b' ! j = ?b2 ! j"
      "\<forall>j. d + 1 \<le> j \<and> j < d + 1 + n \<longrightarrow> b' ! j = ?b2 ! (j + 1)"
    using Suc.IH[OF c2, of "d + 1"] Suc.prems(2) by auto
  have a: "\<forall>j < length b. j < d \<or> d + 1 + Suc n \<le> j \<longrightarrow> b' ! j = b ! j"
    using ih(3) by auto
  have b: "\<forall>j. d \<le> j \<and> j < d + Suc n \<longrightarrow> b' ! j = b ! (j + 1)"
  proof (intro allI impI)
    fix j assume j: "d \<le> j \<and> j < d + Suc n"
    show "b' ! j = b ! (j + 1)"
    proof (cases "j = d")
      case True
      then show ?thesis using ih(3) lt0 lt1 by simp
    next
      case False
      then show ?thesis using ih(4) j by simp
    qed
  qed
  show ?case
    unfolding unfold using ih(1,2) a b by (intro exI[of _ b']) (simp add: put_put)
qed

lemma std_copy_backward_right:
  assumes "contents h p = Some b" "f + n < length b"
  shows "\<exists>b'. std_copy_backward g h p f (f + n) p (f + n + 1)
            = Some (put h p b', concat (map (\<lambda>i. [Moved_from i, Assigned (i + 1)]) (rev [f..<f + n])))
          \<and> length b' = length b
          \<and> (\<forall>j < length b. j < f \<or> f + n < j \<longrightarrow> b' ! j = b ! j)
          \<and> (\<forall>j. f < j \<and> j \<le> f + n \<longrightarrow> b' ! j = b ! (j - 1))"
  using assms
proof (induction n arbitrary: h b)
  case 0
  then show ?case by (intro exI[of _ b]) (auto simp: put_same std_copy.simps std_copy_backward.simps)
next
  case (Suc n)
  let ?l = "f + Suc n"
  have ltl: "?l < length b" and ltl1: "f + n < length b" using Suc.prems by simp_all
  let ?x = "b ! (f + n)"
  let ?b1 = "b[?l := ?x]"
  let ?h1 = "put h p ?b1"
  have c1: "contents ?h1 p = Some ?b1"
    using Suc.prems(1) by (simp add: contents_put_same)
  have s2: "store ?h1 p (f + n) z = Some (put ?h1 p (?b1[f + n := z]))" for z
    using store_contents[OF c1, of "f + n"] ltl1 by simp
  let ?b2 = "?b1[f + n := g ?x (b ! ?l)]"
  let ?h2 = "put h p ?b2"
  have c2: "contents ?h2 p = Some ?b2"
    using Suc.prems(1) by (simp add: contents_put_same)
  obtain b' where ih:
      "std_copy_backward g ?h2 p f (f + n) p (f + n + 1)
         = Some (put ?h2 p b', concat (map (\<lambda>i. [Moved_from i, Assigned (i + 1)]) (rev [f..<f + n])))"
      "length b' = length ?b2"
      "\<forall>j < length ?b2. j < f \<or> f + n < j \<longrightarrow> b' ! j = ?b2 ! j"
      "\<forall>j. f < j \<and> j \<le> f + n \<longrightarrow> b' ! j = ?b2 ! (j - 1)"
    using Suc.IH[OF c2] ltl1 by auto
  have unfold: "std_copy_backward g h p f ?l p (?l + 1)
      = Some (put h p b', Moved_from (f + n) # Assigned ?l
              # concat (map (\<lambda>i. [Moved_from i, Assigned (i + 1)]) (rev [f..<f + n])))"
    apply (subst std_copy_backward.simps)
    using load_contents[OF Suc.prems(1) ltl1] load_contents[OF Suc.prems(1) ltl]
          store_contents[OF Suc.prems(1) ltl, of ?x] s2[of "g ?x (b ! ?l)"] ih(1)
    by (simp add: put_put)
  have a: "\<forall>j < length b. j < f \<or> ?l < j \<longrightarrow> b' ! j = b ! j"
    using ih(3) by auto
  have b: "\<forall>j. f < j \<and> j \<le> ?l \<longrightarrow> b' ! j = b ! (j - 1)"
  proof (intro allI impI)
    fix j assume j: "f < j \<and> j \<le> ?l"
    show "b' ! j = b ! (j - 1)"
    proof (cases "j = ?l")
      case True
      then show ?thesis using ih(3) ltl ltl1 by simp
    next
      case False
      then have "f < j \<and> j \<le> f + n" and "j - 1 \<noteq> f + n" and "j - 1 \<noteq> ?l"
        using j by auto
      then show ?thesis using ih(4) by simp
    qed
  qed
  show ?case
    unfolding unfold using ih(2) a b by (intro exI[of _ b']) simp
qed

lemma std_equal_contents:
  assumes "contents h p = Some bp" "contents h q = Some bq"
    and "f + n \<le> length bp" "f2 + n \<le> length bq"
  shows "std_equal h p f (f + n) q f2 = Some (take n (drop f bp) = take n (drop f2 bq))"
  using assms
proof (induction n arbitrary: f f2)
  case 0
  then show ?case by (simp add: std_equal.simps)
next
  case (Suc n)
  have lt: "f < length bp" "f2 < length bq" using Suc.prems by simp_all
  have ih: "std_equal h p (f + 1) (f + 1 + n) q (f2 + 1)
      = Some (take n (drop (f + 1) bp) = take n (drop (f2 + 1) bq))"
    using Suc.prems by (intro Suc.IH) simp_all
  have "take (Suc n) (drop f bp) = bp ! f # take n (drop (f + 1) bp)"
    using lt(1) by (simp flip: Cons_nth_drop_Suc)
  moreover have "take (Suc n) (drop f2 bq) = bq ! f2 # take n (drop (f2 + 1) bq)"
    using lt(2) by (simp flip: Cons_nth_drop_Suc)
  ultimately show ?case
    apply (subst std_equal.simps)
    using ih
    by (simp add: load_contents[OF Suc.prems(1) lt(1)] load_contents[OF Suc.prems(2) lt(2)])
qed

section \<open>Allocation and release\<close>

lemma contents_None [simp]: "contents h None = Some []"
  by (simp add: contents_def)

lemma ArrayPtr_new_pos:
  assumes "0 < n"
  shows "ArrayPtr_new T h n = (h @ [Some (replicate n (Type_default T))], Some (length h))"
  using assms by (simp add: ArrayPtr_new_def)

lemma contents_fresh: "contents h (Some (length h)) = None"
  by (simp add: contents_def block_def)

lemma contents_append_new: "contents (h @ [Some b]) (Some (length h)) = Some b"
  by (simp add: contents_def block_def)

lemma contents_append_old: "contents h q \<noteq> None \<Longrightarrow> contents (h @ [x]) q = contents h q"
  by (cases q) (auto simp: contents_def block_def nth_append split: if_splits)

lemma ArrayPtr_new_spec:
  "\<exists>h1 p. ArrayPtr_new T h n = (h1, p)
     \<and> contents h1 p = Some (replicate n (Type_default T))
     \<and> (p = None \<or> contents h p = None)
     \<and> (p = None \<longleftrightarrow> n = 0)
     \<and> (\<forall>q. contents h q \<noteq> None \<longrightarrow> contents h1 q = contents h q)"
  by (auto simp: ArrayPtr_new_def contents_fresh contents_append_new contents_append_old)

lemma ArrayPtr_delete_spec:
  assumes "contents h p = Some b"
  shows "\<exists>h'. ArrayPtr_delete h p = Some h' \<and> (\<forall>q. q \<noteq> p \<longrightarrow> contents h' q = contents h q)"
proof (cases p)
  case None
  then show ?thesis by (simp add: ArrayPtr_delete_def)
next
  case (Some a)
  have "contents (h[a := None]) q = contents h q" if "q \<noteq> Some a" for q
    using that by (cases q) (auto simp: contents_def block_def)
  then show ?thesis using assms Some
    by (auto simp: ArrayPtr_delete_def contents_def)
qed

lemma invariant_buffer:
  "invariant h v \<longleftrightarrow> sv_size v \<le> sv_capacity v \<and> (\<exists>b. buffer h v = Some b \<and> length b = sv_capacity v)"
  by (auto simp: invariant_def split: option.splits)

lemma IncreaseCapacity_spec:
  assumes inv: "invariant h v" and buf: "buffer h v = Some b"
    and n: "sv_size v \<le> n" "0 < n"
  shows "\<exists>h' p. IncreaseCapacity T h v n = Some (h', v\<lparr>sv_data := p, sv_capacity := n\<rparr>)
          \<and> contents h' p = Some (take (sv_size v) b @ replicate (n - sv_size v) (Type_default T))
          \<and> p \<noteq> None \<and> contents h p = None
          \<and> (\<forall>q. q \<noteq> sv_data v \<longrightarrow> contents h q \<noteq> None \<longrightarrow> contents h' q = contents h q)"
proof -
  let ?d = "Type_default T"
  let ?src = "sv_data v"
  let ?p = "Some (length h)"
  let ?h1 = "h @ [Some (replicate n ?d)]"
  have new: "ArrayPtr_new T h n = (?h1, ?p)" using n(2) by (rule ArrayPtr_new_pos)
  have cs: "contents h ?src = Some b" using buf by (simp add: buffer_def)
  have len: "length b = sv_capacity v" "sv_size v \<le> length b"
    using inv buf by (auto simp: invariant_buffer)
  have ne: "?src \<noteq> ?p" using cs contents_fresh[of h] by auto
  have cs1: "contents ?h1 ?src = Some b" using cs by (simp add: contents_append_old)
  have cp1: "contents ?h1 ?p = Some (replicate n ?d)" by (rule contents_append_new)
  let ?bt = "take (sv_size v) b @ replicate (n - sv_size v) ?d"
  obtain bs' where copy:
      "std_copy (Some (Type_moved T)) ?h1 ?src 0 (sv_size v) ?p 0
         = Some (put (put ?h1 ?p ?bt) ?src bs')"
      "length bs' = length b"
    using std_copy_distinct[OF cs1 cp1, of "sv_size v" 0 0 "Some (Type_moved T)"] ne len n
    by auto
  let ?h2 = "put (put ?h1 ?p ?bt) ?src bs'"
  have cs2: "contents ?h2 ?src = Some bs'"
    using cs1 ne copy(2) by (simp add: contents_put_same contents_put_other)
  have cp2: "contents ?h2 ?p = Some ?bt"
    using ne n len contents_put_same[OF cp1, of ?bt] by (simp add: contents_put_other)
  obtain h3 where del: "ArrayPtr_delete ?h2 ?src = Some h3"
      "\<forall>q. q \<noteq> ?src \<longrightarrow> contents h3 q = contents ?h2 q"
    using ArrayPtr_delete_spec[OF cs2] by blast
  have frame: "contents h3 q = contents h q" if "q \<noteq> ?src" "contents h q \<noteq> None" for q
  proof -
    have "q \<noteq> ?p" using that(2) contents_fresh[of h] by auto
    then have "contents ?h2 q = contents ?h1 q"
      using that(1) by (simp add: contents_put_other)
    then show ?thesis using del(2) that by (simp add: contents_append_old)
  qed
  have "IncreaseCapacity T h v n = Some (h3, v\<lparr>sv_data := ?p, sv_capacity := n\<rparr>)"
    by (simp add: IncreaseCapacity_def new copy(1) ArrayPtr_swap_def del(1))
  moreover have "contents h3 ?p = Some ?bt" using del(2) ne cp2 by simp
  ultimately show ?thesis using frame contents_fresh[of h] by auto
qed

section \<open>The operations of the vector\<close>

lemma step_of_put:
  assumes "sv_data v' = sv_data v"
  shows "step_of h v (put h (sv_data v) b') v'"
  using assms by (simp add: step_of_def contents_put_other)

lemma buffer_put:
  assumes "buffer h v = Some b" "length b' = length b" "sv_data v' = sv_data v"
  shows "buffer (put h (sv_data v) b') v' = Some b'"
  using assms by (simp add: buffer_def contents_put_same)

lemma PushBack_spec:
  assumes inv: "invariant h v" and buf: "buffer h v = Some b"
  shows "\<exists>h' v' b'. PushBack T h v (Outside x) = Some (h', v')
          \<and> sv_size v' = sv_size v + 1
          \<and> sv_capacity v' = (if sv_size v = sv_capacity v
                               then max (sv_size v + 1) (sv_capacity v * 2) else sv_capacity v)
          \<and> buffer h' v' = Some b' \<and> length b' = sv_capacity v'
          \<and> take (sv_size v) b' = take (sv_size v) b \<and> b' ! sv_size v = x
          \<and> step_of h v h' v'"
proof -
  have len: "length b = sv_capacity v" "sv_size v \<le> sv_capacity v"
    using inv buf by (auto simp: invariant_buffer)
  show ?thesis
  proof (cases "sv_size v \<ge> sv_capacity v")
    case True
    let ?n = "max (sv_size v + 1) (sv_capacity v * 2)"
    let ?bt = "take (sv_size v) b @ replicate (?n - sv_size v) (Type_default T)"
    obtain h1 p where inc:
        "IncreaseCapacity T h v ?n = Some (h1, v\<lparr>sv_data := p, sv_capacity := ?n\<rparr>)"
        "contents h1 p = Some ?bt" "contents h p = None"
        "\<forall>q. q \<noteq> sv_data v \<longrightarrow> contents h q \<noteq> None \<longrightarrow> contents h1 q = contents h q"
    proof -
      have "sv_size v \<le> ?n" "0 < ?n" by simp_all
      from IncreaseCapacity_spec[OF inv buf this, of T] show ?thesis
        using that by blast
    qed
    let ?v1 = "v\<lparr>sv_data := p, sv_capacity := ?n\<rparr>"
    let ?b' = "?bt[sv_size v := x]"
    let ?v' = "?v1\<lparr>sv_size := sv_size v + 1\<rparr>"
    have lt: "sv_size v < length ?bt" using len by simp
    have st: "store h1 p (sv_size v) x = Some (put h1 p ?b')"
      using store_contents[OF inc(2) lt] .
    have run: "PushBack T h v (Outside x) = Some (put h1 p ?b', ?v')"
      using True inc(1) st by (simp add: PushBack_def)
    have "buffer (put h1 p ?b') ?v' = Some ?b'"
      using inc(2) by (simp add: buffer_def contents_put_same)
    moreover have "length ?b' = sv_capacity ?v'" using len by simp
    moreover have "take (sv_size v) ?b' = take (sv_size v) b" using len by simp
    moreover have "?b' ! sv_size v = x" using lt by simp
    moreover have "step_of h v (put h1 p ?b') ?v'"
      unfolding step_of_def
    proof (intro conjI allI impI)
      show "sv_data ?v' = sv_data v \<or> sv_data ?v' = None \<or> contents h (sv_data ?v') = None"
        using inc(3) by simp
    next
      fix q assume q: "q \<noteq> sv_data v" "contents h q \<noteq> None"
      then have "q \<noteq> p" using inc(3) by auto
      then show "contents (put h1 p ?b') q = contents h q"
        using q inc(4) by (simp add: contents_put_other)
    qed
    ultimately show ?thesis using run True len by (intro exI[of _ "put h1 p ?b'"] exI[of _ ?v'] exI[of _ ?b']) simp
  next
    case False
    let ?b' = "b[sv_size v := x]"
    let ?v' = "v\<lparr>sv_size := sv_size v + 1\<rparr>"
    have lt: "sv_size v < length b" using False len by simp
    have cs: "contents h (sv_data v) = Some b" using buf by (simp add: buffer_def)
    have run: "PushBack T h v (Outside x) = Some (put h (sv_data v) ?b', ?v')"
      using False store_contents[OF cs lt, of x] by (simp add: PushBack_def)
    have "buffer (put h (sv_data v) ?b') ?v' = Some ?b'"
      using buffer_put[OF buf, of ?b' ?v'] by simp
    moreover have "step_of h v (put h (sv_data v) ?b') ?v'"
      by (rule step_of_put) simp
    ultimately show ?thesis using run False len lt
      by (intro exI[of _ "put h (sv_data v) ?b'"] exI[of _ ?v'] exI[of _ ?b']) simp
  qed
qed

lemma shifted_list:
  assumes "index \<le> n" "n < length b1" "length b1 = length b"
    and "\<forall>j < length b. j < index \<longrightarrow> b1 ! j = b ! j"
    and "\<forall>j. index < j \<and> j \<le> n \<longrightarrow> b1 ! j = b ! (j - 1)"
  shows "take (n + 1) (b1[index := x]) = take index b @ [x] @ drop index (take n b)"
proof (rule nth_equalityI)
  show "length (take (n + 1) (b1[index := x])) = length (take index b @ [x] @ drop index (take n b))"
    using assms(1,2,3) by simp
next
  fix i assume "i < length (take (n + 1) (b1[index := x]))"
  then have i: "i \<le> n" using assms(2) by simp
  consider "i < index" | "i = index" | "index < i" by linarith
  then show "take (n + 1) (b1[index := x]) ! i = (take index b @ [x] @ drop index (take n b)) ! i"
  proof cases
    case 1
    then show ?thesis using i assms by (simp add: nth_append)
  next
    case 2
    then show ?thesis using i assms by (simp add: nth_append)
  next
    case 3
    then have "b1 ! i = b ! (i - 1)" using assms(5) i by simp
    moreover have "(take index b @ [x] @ drop index (take n b)) ! i = b ! (i - 1)"
      using 3 i assms(1,2,3) by (simp add: nth_append nth_Cons')
    ultimately show ?thesis using 3 i assms(2) by simp
  qed
qed

lemma Insert_headroom:
  assumes inv: "invariant h v" and buf: "buffer h v = Some b"
    and idx: "index \<le> sv_size v" and room: "sv_size v < sv_capacity v"
  shows "\<exists>h1 b'. std_copy_backward (Type_moved T) h (sv_data v) index (sv_size v)
              (sv_data v) (sv_size v + 1)
            = Some (h1, concat (map (\<lambda>i. [Moved_from i, Assigned (i + 1)])
                                 (rev [index..<sv_size v])))
          \<and> Insert T h v (Pointer (sv_data v) index) (Outside x)
            = Some (put h (sv_data v) b', v\<lparr>sv_size := sv_size v + 1\<rparr>, Pointer (sv_data v) index)
          \<and> length b' = length b
          \<and> take (sv_size v + 1) b' = take index b @ [x] @ drop index (take (sv_size v) b)
          \<and> (\<forall>j < length b. sv_size v < j \<longrightarrow> b' ! j = b ! j)"
proof -
  have len: "length b = sv_capacity v" using inv buf by (auto simp: invariant_buffer)
  have cs: "contents h (sv_data v) = Some b" using buf by (simp add: buffer_def)
  let ?n = "sv_size v - index"
  have sz: "index + ?n = sv_size v" using idx by simp
  have lt: "index + ?n < length b" using sz room len by simp
  obtain b1 where shift:
      "std_copy_backward (Type_moved T) h (sv_data v) index (index + ?n) (sv_data v) (index + ?n + 1)
         = Some (put h (sv_data v) b1,
                 concat (map (\<lambda>i. [Moved_from i, Assigned (i + 1)]) (rev [index..<index + ?n])))"
      "length b1 = length b"
      "\<forall>j < length b. j < index \<or> index + ?n < j \<longrightarrow> b1 ! j = b ! j"
      "\<forall>j. index < j \<and> j \<le> index + ?n \<longrightarrow> b1 ! j = b ! (j - 1)"
    using std_copy_backward_right[OF cs lt, of "Type_moved T"] by blast
  let ?h1 = "put h (sv_data v) b1"
  let ?b' = "b1[index := x]"
  have c1: "contents ?h1 (sv_data v) = Some b1"
    using cs shift(2) by (simp add: contents_put_same)
  have ilt: "index < length b1" using lt shift(2) by simp
  have st: "store ?h1 (sv_data v) index x = Some (put h (sv_data v) ?b')"
    using store_contents[OF c1 ilt, of x] by (simp add: put_put)
  have run: "Insert T h v (Pointer (sv_data v) index) (Outside x)
      = Some (put h (sv_data v) ?b', v\<lparr>sv_size := sv_size v + 1\<rparr>, Pointer (sv_data v) index)"
    using idx room shift(1) st unfolding sz
    by (simp add: Insert_def vbegin_def vend_def ArrayPtr_index_def)
  have seq: "take (sv_size v + 1) ?b' = take index b @ [x] @ drop index (take (sv_size v) b)"
    using shift(2,3,4) lt idx unfolding sz by (intro shifted_list) auto
  have rest: "\<forall>j < length b. sv_size v < j \<longrightarrow> ?b' ! j = b ! j"
    using shift(3) idx unfolding sz by auto
  show ?thesis
    using shift(1) run seq rest shift(2) unfolding sz
    by (intro exI[of _ ?h1] exI[of _ ?b']) simp
qed

lemma contents_put_put:
  assumes "contents h p = Some b0" "length b = length b0" "q \<noteq> p"
  shows "contents (put (put h p b) q c) p = Some b"
  using assms by (simp add: contents_put_other contents_put_same)

lemma Insert_realloc:
  assumes inv: "invariant h v" and buf: "buffer h v = Some b"
    and idx: "index \<le> sv_size v" and full: "\<not> sv_size v < sv_capacity v"
  shows "\<exists>h' p b'. Insert T h v (Pointer (sv_data v) index) (Outside x)
            = Some (h', v\<lparr>sv_data := p, sv_capacity := max (sv_size v + 1) (sv_capacity v * 2),
                         sv_size := sv_size v + 1\<rparr>, Pointer p index)
          \<and> contents h' p = Some b'
          \<and> length b' = max (sv_size v + 1) (sv_capacity v * 2)
          \<and> take (sv_size v + 1) b' = take index b @ [x] @ drop index (take (sv_size v) b)
          \<and> drop (sv_size v + 1) b'
              = replicate (max (sv_size v + 1) (sv_capacity v * 2) - (sv_size v + 1)) (Type_default T)
          \<and> p \<noteq> None \<and> contents h p = None
          \<and> (\<forall>q. q \<noteq> sv_data v \<longrightarrow> contents h q \<noteq> None \<longrightarrow> contents h' q = contents h q)"
proof -
  let ?d = "Type_default T"
  let ?mv = "Some (Type_moved T)"
  let ?src = "sv_data v"
  let ?s = "sv_size v"
  let ?p = "Some (length h)"
  define n where "n = max (?s + 1) (sv_capacity v * 2)"
  define bt where "bt = replicate n ?d"
  define h1 where "h1 = h @ [Some bt]"
  have len: "length b = ?s" "sv_capacity v = ?s"
    using inv buf full by (auto simp: invariant_buffer)
  have n: "?s < n" by (simp add: n_def)
  have lbt: "length bt = n" by (simp add: bt_def)
  have new: "ArrayPtr_new T h n = (h1, ?p)"
    unfolding h1_def bt_def by (rule ArrayPtr_new_pos) (simp add: n_def)
  have cs: "contents h ?src = Some b" using buf by (simp add: buffer_def)
  have ne: "?src \<noteq> ?p" using cs contents_fresh[of h] by auto
  have cs1: "contents h1 ?src = Some b" using cs by (simp add: h1_def contents_append_old)
  have cp1: "contents h1 ?p = Some bt" unfolding h1_def by (rule contents_append_new)
  \<comment> \<open>the elements before the position\<close>
  obtain bs1 bt1 where copy1:
      "std_copy ?mv h1 ?src 0 index ?p 0 = Some (put (put h1 ?p bt1) ?src bs1)"
      "length bs1 = length b"
      "\<forall>j < length b. index \<le> j \<longrightarrow> bs1 ! j = b ! j"
    and bt1_def: "bt1 = take index b @ drop index bt"
  proof -
    have "0 + index \<le> length b" "0 + index \<le> length bt" using idx len n lbt by simp_all
    from std_copy_distinct[OF cs1 cp1 disjI1[OF ne] this, of ?mv] show ?thesis
      using that by auto
  qed
  have lbt1: "length bt1 = n" using idx len n lbt by (simp add: bt1_def)
  define h2 where "h2 = put (put h1 ?p bt1) ?src bs1"
  have cs2: "contents h2 ?src = Some bs1"
    unfolding h2_def using cs1 ne copy1(2) by (simp add: contents_put_same contents_put_other)
  have cp2: "contents h2 ?p = Some bt1"
    unfolding h2_def using cp1 lbt1 lbt ne by (intro contents_put_put) auto
  \<comment> \<open>the new element\<close>
  define bt2 where "bt2 = bt1[index := x]"
  define h3 where "h3 = put h2 ?p bt2"
  have lbt2: "length bt2 = n" using lbt1 by (simp add: bt2_def)
  have st: "store h2 ?p index x = Some h3"
    unfolding h3_def bt2_def using store_contents[OF cp2, of index x] lbt1 idx n by simp
  have cs3: "contents h3 ?src = Some bs1"
    unfolding h3_def using cs2 ne by (simp add: contents_put_other)
  have cp3: "contents h3 ?p = Some bt2"
    unfolding h3_def using lbt1 lbt2 by (intro contents_put_same[OF cp2]) simp
  \<comment> \<open>the elements from the position on\<close>
  define k where "k = ?s - index"
  have sz: "index + k = ?s" using idx by (simp add: k_def)
  obtain bs2 bt3 where copy2:
      "std_copy ?mv h3 ?src index (index + k) ?p (index + 1) = Some (put (put h3 ?p bt3) ?src bs2)"
      "length bs2 = length bs1"
    and bt3_def: "bt3 = take (index + 1) bt2 @ take k (drop index bs1) @ drop (index + 1 + k) bt2"
  proof -
    have "index + k \<le> length bs1" "index + 1 + k \<le> length bt2"
      using sz len n copy1(2) lbt2 by simp_all
    from std_copy_distinct[OF cs3 cp3 disjI1[OF ne] this, of ?mv] show ?thesis
      using that by auto
  qed
  have lbt3: "length bt3 = n" using sz len n copy1(2) lbt2 by (auto simp: bt3_def)
  define h4 where "h4 = put (put h3 ?p bt3) ?src bs2"
  have cs4: "contents h4 ?src = Some bs2"
    unfolding h4_def using cs3 ne copy2(2) by (simp add: contents_put_same contents_put_other)
  have cp4: "contents h4 ?p = Some bt3"
    unfolding h4_def using cp3 lbt3 lbt2 ne by (intro contents_put_put) auto
  obtain h5 where del: "ArrayPtr_delete h4 ?src = Some h5"
      "\<forall>q. q \<noteq> ?src \<longrightarrow> contents h5 q = contents h4 q"
    using ArrayPtr_delete_spec[OF cs4] by blast
  have frame: "contents h5 q = contents h q" if "q \<noteq> ?src" "contents h q \<noteq> None" for q
  proof -
    have "q \<noteq> ?p" using that(2) contents_fresh[of h] by auto
    then have "contents h4 q = contents h1 q"
      using that(1) by (simp add: h4_def h3_def h2_def contents_put_other)
    then show ?thesis using del(2) that by (simp add: h1_def contents_append_old)
  qed
  have run: "Insert T h v (Pointer ?src index) (Outside x)
      = Some (h5, v\<lparr>sv_data := ?p, sv_capacity := n, sv_size := ?s + 1\<rparr>, Pointer ?p index)"
    using idx full new[unfolded n_def] copy1(1) st copy2(1) del(1)
    unfolding sz h4_def[symmetric] h2_def[symmetric] n_def
    by (simp add: Insert_def vbegin_def vend_def ArrayPtr_index_def ArrayPtr_swap_def)
  have tail: "take k (drop index bs1) = drop index (take ?s b)"
  proof (rule nth_equalityI)
    show "length (take k (drop index bs1)) = length (drop index (take ?s b))"
      using copy1(2) len by (simp add: k_def)
  next
    fix i assume "i < length (take k (drop index bs1))"
    then have "i < k" by simp
    then show "take k (drop index bs1) ! i = drop index (take ?s b) ! i"
      using copy1(2,3) len idx by (simp add: k_def)
  qed
  have front: "take (index + 1) bt2 = take index b @ [x]"
    using idx len n lbt by (simp add: bt2_def bt1_def take_Suc_conv_app_nth nth_append)
  have seq: "take (?s + 1) bt3 = take index b @ [x] @ drop index (take ?s b)"
    using idx len unfolding bt3_def front tail by (simp add: Suc_diff_le)
  have rest: "drop (?s + 1) bt3 = replicate (n - (?s + 1)) ?d"
    using idx len n lbt sz unfolding bt3_def front tail
    by (simp add: bt2_def bt1_def bt_def Suc_diff_le)
  have "contents h5 ?p = Some bt3" using del(2) ne cp4 by simp
  then show ?thesis
    using run lbt3 seq rest frame contents_fresh[of h] unfolding n_def
    by (intro exI[of _ h5] exI[of _ ?p] exI[of _ bt3]) simp
qed

lemma erased_list:
  assumes "index < n" "n \<le> length b" "length b' = length b"
    and "\<forall>j < length b. j < index \<longrightarrow> b' ! j = b ! j"
    and "\<forall>j. index \<le> j \<and> j < n - 1 \<longrightarrow> b' ! j = b ! (j + 1)"
  shows "take (n - 1) b' = take index b @ drop (index + 1) (take n b)"
proof (rule nth_equalityI)
  show "length (take (n - 1) b') = length (take index b @ drop (index + 1) (take n b))"
    using assms(1,2,3) by simp
next
  fix i assume "i < length (take (n - 1) b')"
  then have i: "i < n - 1" by simp
  show "take (n - 1) b' ! i = (take index b @ drop (index + 1) (take n b)) ! i"
  proof (cases "i < index")
    case True
    then show ?thesis using i assms by (simp add: nth_append)
  next
    case False
    then have "b' ! i = b ! (i + 1)" using assms(5) i by simp
    then show ?thesis using False i assms(1,2,3) by (simp add: nth_append)
  qed
qed

lemma Erase_spec:
  assumes inv: "invariant h v" and buf: "buffer h v = Some b"
    and idx: "index < sv_size v"
  shows "\<exists>b'. Erase T h v (Pointer (sv_data v) index)
            = Some (put h (sv_data v) b', v\<lparr>sv_size := sv_size v - 1\<rparr>, Pointer (sv_data v) index)
          \<and> length b' = length b
          \<and> take (sv_size v - 1) b' = take index b @ drop (index + 1) (take (sv_size v) b)
          \<and> (\<forall>j < length b. sv_size v \<le> j \<longrightarrow> b' ! j = b ! j)"
proof -
  have len: "length b = sv_capacity v" "sv_size v \<le> length b"
    using inv buf by (auto simp: invariant_buffer)
  have cs: "contents h (sv_data v) = Some b" using buf by (simp add: buffer_def)
  define k where "k = sv_size v - index - 1"
  have sz: "index + 1 + k = sv_size v" using idx by (simp add: k_def)
  have le: "index + 1 + k \<le> length b" using sz len by simp
  obtain b' where shift:
      "std_copy (Some (Type_moved T)) h (sv_data v) (index + 1) (index + 1 + k) (sv_data v) index
         = Some (put h (sv_data v) b')"
      "length b' = length b"
      "\<forall>j < length b. j < index \<or> index + 1 + k \<le> j \<longrightarrow> b' ! j = b ! j"
      "\<forall>j. index \<le> j \<and> j < index + k \<longrightarrow> b' ! j = b ! (j + 1)"
    using std_copy_left[OF cs le, of "Some (Type_moved T)"] by blast
  have run: "Erase T h v (Pointer (sv_data v) index)
      = Some (put h (sv_data v) b', v\<lparr>sv_size := sv_size v - 1\<rparr>, Pointer (sv_data v) index)"
    using idx shift(1) unfolding sz
    by (simp add: Erase_def vbegin_def vend_def ArrayPtr_index_def)
  have "index + k = sv_size v - 1" using sz by simp
  then have seq: "take (sv_size v - 1) b' = take index b @ drop (index + 1) (take (sv_size v) b)"
    using shift(2,3,4) idx len by (intro erased_list) auto
  have rest: "\<forall>j < length b. sv_size v \<le> j \<longrightarrow> b' ! j = b ! j"
    using shift(3) unfolding sz by auto
  show ?thesis using run shift(2) seq rest by (intro exI[of _ b']) simp
qed

lemma Resize_shrink:
  assumes "n \<le> sv_size v"
  shows "Resize T h v n = Some (h, v\<lparr>sv_size := n\<rparr>)"
  using assms by (simp add: Resize_def)

lemma Resize_in_place:
  assumes inv: "invariant h v" and buf: "buffer h v = Some b"
    and n: "sv_size v < n" "n \<le> sv_capacity v"
  shows "Resize T h v n
     = Some (put h (sv_data v)
               (take (sv_size v) b @ replicate (n - sv_size v) (Type_default T) @ drop n b),
             v\<lparr>sv_size := n\<rparr>)"
proof -
  have len: "length b = sv_capacity v" using inv buf by (auto simp: invariant_buffer)
  have cs: "contents h (sv_data v) = Some b" using buf by (simp add: buffer_def)
  define k where "k = n - sv_size v"
  have sz: "sv_size v + k = n" using n by (simp add: k_def)
  have le: "sv_size v + k \<le> length b" using sz n len by simp
  have "sv_size v + n - sv_size v = sv_size v + k" using sz by simp
  then show ?thesis
    using n std_generate_contents[OF cs le, of "\<lambda>_. Type_default T"] sz
    by (simp add: Resize_def k_def)
qed

lemma Resize_realloc:
  assumes inv: "invariant h v" and buf: "buffer h v = Some b"
    and n: "sv_capacity v < n"
  shows "\<exists>h' p. Resize T h v n
            = Some (h', v\<lparr>sv_data := p, sv_capacity := max n (sv_capacity v * 2), sv_size := n\<rparr>)
          \<and> contents h' p = Some (take (sv_size v) b
               @ replicate (max n (sv_capacity v * 2) - sv_size v) (Type_default T))
          \<and> p \<noteq> None \<and> contents h p = None
          \<and> (\<forall>q. q \<noteq> sv_data v \<longrightarrow> contents h q \<noteq> None \<longrightarrow> contents h' q = contents h q)"
proof -
  define m where "m = max n (sv_capacity v * 2)"
  have sz: "sv_size v \<le> sv_capacity v" using inv by (simp add: invariant_buffer)
  have m: "sv_size v \<le> m" "0 < m" using n sz by (simp_all add: m_def)
  obtain h' p where inc:
      "IncreaseCapacity T h v m = Some (h', v\<lparr>sv_data := p, sv_capacity := m\<rparr>)"
      "contents h' p = Some (take (sv_size v) b @ replicate (m - sv_size v) (Type_default T))"
      "p \<noteq> None" "contents h p = None"
      "\<forall>q. q \<noteq> sv_data v \<longrightarrow> contents h q \<noteq> None \<longrightarrow> contents h' q = contents h q"
    using IncreaseCapacity_spec[OF inv buf m, of T] by blast
  have "Resize T h v n = Some (h', v\<lparr>sv_data := p, sv_capacity := m, sv_size := n\<rparr>)"
    using n sz inc(1) unfolding m_def by (simp add: Resize_def)
  then show ?thesis using inc(2-5) unfolding m_def by blast
qed

lemma Reserve_realloc:
  assumes inv: "invariant h v" and buf: "buffer h v = Some b"
    and n: "sv_capacity v < n"
  shows "\<exists>h' p. Reserve T h v n = Some (h', v\<lparr>sv_data := p, sv_capacity := n\<rparr>)
          \<and> contents h' p = Some (take (sv_size v) b @ replicate (n - sv_size v) (Type_default T))
          \<and> p \<noteq> None \<and> contents h p = None
          \<and> (\<forall>q. q \<noteq> sv_data v \<longrightarrow> contents h q \<noteq> None \<longrightarrow> contents h' q = contents h q)"
proof -
  have "sv_size v \<le> n" "0 < n" using inv n by (simp_all add: invariant_buffer)
  from IncreaseCapacity_spec[OF inv buf this, of T] show ?thesis
    using n by (simp add: Reserve_def)
qed

lemma put_None [simp]: "put h None b = h"
  by (simp add: put_def)

lemma SimpleVector_fill_spec:
  "\<exists>h1 p. SimpleVector_fill T h n x = Some (h1, \<lparr>sv_size = n, sv_capacity = n, sv_data = p\<rparr>)
     \<and> contents h1 p = Some (replicate n x)
     \<and> (p = None \<or> contents h p = None) \<and> (p = None \<longleftrightarrow> n = 0)
     \<and> (\<forall>q. contents h q \<noteq> None \<longrightarrow> contents h1 q = contents h q)"
proof -
  obtain h0 p where new: "ArrayPtr_new T h n = (h0, p)"
      "contents h0 p = Some (replicate n (Type_default T))"
      "p = None \<or> contents h p = None" "p = None \<longleftrightarrow> n = 0"
      "\<forall>q. contents h q \<noteq> None \<longrightarrow> contents h0 q = contents h q"
    using ArrayPtr_new_spec[of T h n] by blast
  let ?h1 = "put h0 p (replicate n x)"
  have fill: "std_fill h0 p 0 n x = Some ?h1"
    using std_fill_contents[OF new(2), of 0 n x] by simp
  have run: "SimpleVector_fill T h n x = Some (?h1, \<lparr>sv_size = n, sv_capacity = n, sv_data = p\<rparr>)"
    by (simp add: SimpleVector_fill_def new(1) fill)
  have cp: "contents ?h1 p = Some (replicate n x)"
    using contents_put_same[OF new(2), of "replicate n x"] by simp
  have "contents ?h1 q = contents h q" if "contents h q \<noteq> None" for q
  proof (cases "q = p")
    case True
    then have "p = None" using that new(3) by auto
    then show ?thesis using True by simp
  next
    case False
    then show ?thesis using that new(5) by (simp add: contents_put_other)
  qed
  then show ?thesis using run cp new(3,4) by blast
qed

lemma SimpleVector_reserve_spec:
  "\<exists>h1 p. SimpleVector_reserve T h n = (h1, \<lparr>sv_size = 0, sv_capacity = n, sv_data = p\<rparr>)
     \<and> contents h1 p = Some (replicate n (Type_default T))
     \<and> (p = None \<or> contents h p = None)
     \<and> (\<forall>q. contents h q \<noteq> None \<longrightarrow> contents h1 q = contents h q)"
  using ArrayPtr_new_spec[of T h n] by (auto simp: SimpleVector_reserve_def)

lemma SimpleVector_init_spec:
  "\<exists>h1 p. SimpleVector_init T h init
        = Some (h1, \<lparr>sv_size = length init, sv_capacity = length init, sv_data = p\<rparr>)
     \<and> contents h1 p = Some init
     \<and> (p = None \<or> contents h p = None)
     \<and> (\<forall>q. contents h q \<noteq> None \<longrightarrow> contents h1 q = contents h q)"
proof -
  let ?n = "length init"
  obtain h0 p where sized:
      "SimpleVector_fill T h ?n (Type_default T)
         = Some (h0, \<lparr>sv_size = ?n, sv_capacity = ?n, sv_data = p\<rparr>)"
      "contents h0 p = Some (replicate ?n (Type_default T))"
      "p = None \<or> contents h p = None"
      "\<forall>q. contents h q \<noteq> None \<longrightarrow> contents h0 q = contents h q"
    using SimpleVector_fill_spec[of T h ?n "Type_default T"] by blast
  let ?h1 = "put h0 p init"
  have copy: "std_copy_init h0 init p 0 = Some ?h1"
    using std_copy_init_contents[OF sized(2), of 0 init] by simp
  have run: "SimpleVector_init T h init
      = Some (?h1, \<lparr>sv_size = ?n, sv_capacity = ?n, sv_data = p\<rparr>)"
    by (simp add: SimpleVector_init_def SimpleVector_sized_def sized(1) copy)
  have cp: "contents ?h1 p = Some init"
    using contents_put_same[OF sized(2), of init] by simp
  have "contents ?h1 q = contents h q" if "contents h q \<noteq> None" for q
  proof (cases "q = p")
    case True
    then have "p = None" using that sized(3) by auto
    then show ?thesis using True by simp
  next
    case False
    then show ?thesis using that sized(4) by (simp add: contents_put_other)
  qed
  then show ?thesis using run cp sized(3) by blast
qed

lemma SimpleVector_copy_spec:
  assumes inv: "invariant h other" and buf: "buffer h other = Some b"
  shows "\<exists>h' p. SimpleVector_copy T h other
            = Some (h', \<lparr>sv_size = sv_size other, sv_capacity = sv_size other, sv_data = p\<rparr>)
          \<and> contents h' p = Some (take (sv_size other) b)
          \<and> (p = None \<or> contents h p = None) \<and> (p = None \<longleftrightarrow> sv_size other = 0)
          \<and> (\<forall>q. contents h q \<noteq> None \<longrightarrow> contents h' q = contents h q)"
proof -
  let ?n = "sv_size other"
  let ?src = "sv_data other"
  have len: "?n \<le> length b" using inv buf by (auto simp: invariant_buffer)
  have cs: "contents h ?src = Some b" using buf by (simp add: buffer_def)
  obtain h1 p where sized:
      "SimpleVector_fill T h ?n (Type_default T)
         = Some (h1, \<lparr>sv_size = ?n, sv_capacity = ?n, sv_data = p\<rparr>)"
      "contents h1 p = Some (replicate ?n (Type_default T))"
      "p = None \<or> contents h p = None" "p = None \<longleftrightarrow> ?n = 0"
      "\<forall>q. contents h q \<noteq> None \<longrightarrow> contents h1 q = contents h q"
    using SimpleVector_fill_spec[of T h ?n "Type_default T"]
    by (elim exE conjE) (rule that)
  have cs1: "contents h1 ?src = Some b" using sized(5) cs by simp
  have ne: "?src \<noteq> p \<or> ?n = 0" using sized(3,4) cs by auto
  obtain bs' where copy:
      "std_copy None h1 ?src 0 (0 + ?n) p 0
         = Some (put (put h1 p (take 0 (replicate ?n (Type_default T)) @ take ?n (drop 0 b)
                   @ drop (0 + ?n) (replicate ?n (Type_default T)))) ?src bs')"
      "bs' = b"
    using std_copy_distinct[OF cs1 sized(2) ne, of 0 0 None] len by auto
  let ?h2 = "put h1 p (take ?n b)"
  have same: "put ?h2 ?src b = ?h2"
  proof (cases "?src = p")
    case True
    then have "p = None" using sized(3) cs by auto
    then show ?thesis using True by simp
  next
    case False
    then show ?thesis using cs1 by (intro put_same) (simp add: contents_put_other)
  qed
  have copy': "std_copy None h1 ?src 0 ?n p 0 = Some ?h2"
    using copy same by simp
  have run: "SimpleVector_copy T h other
      = Some (?h2, \<lparr>sv_size = ?n, sv_capacity = ?n, sv_data = p\<rparr>)"
    by (simp add: SimpleVector_copy_def SimpleVector_sized_def sized(1) copy' swap_def
        ArrayPtr_swap_def SimpleVector_default_def destroy_def ArrayPtr_delete_def)
  have cp: "contents ?h2 p = Some (take ?n b)"
    using contents_put_same[OF sized(2), of "take ?n b"] len by simp
  have "contents ?h2 q = contents h q" if "contents h q \<noteq> None" for q
  proof (cases "q = p")
    case True
    then have "p = None" using that sized(3) by auto
    then show ?thesis using True by simp
  next
    case False
    then show ?thesis using that sized(5) by (simp add: contents_put_other)
  qed
  then show ?thesis using run cp sized(3,4) by (intro exI[of _ ?h2] exI[of _ p]) simp
qed

lemma length_elements: "invariant h v \<Longrightarrow> length (elements h v) = sv_size v"
  by (auto simp: invariant_buffer elements_def)

lemma equal_op_spec:
  assumes "invariant h lhs" "invariant h rhs"
  shows "equal_op h lhs rhs = Some (elements h lhs = elements h rhs)"
proof -
  obtain bl br where b: "buffer h lhs = Some bl" "buffer h rhs = Some br"
      "sv_size lhs \<le> length bl" "sv_size rhs \<le> length br"
    using assms by (auto simp: invariant_buffer)
  show ?thesis
  proof (cases "sv_size lhs = sv_size rhs")
    case True
    have "std_equal h (sv_data lhs) 0 (0 + sv_size lhs) (sv_data rhs) 0
        = Some (take (sv_size lhs) (drop 0 bl) = take (sv_size lhs) (drop 0 br))"
      using b True by (intro std_equal_contents) (simp_all add: buffer_def)
    then show ?thesis using True b(1,2) by (simp add: equal_op_def GetSize_def elements_def)
  next
    case False
    then have "elements h lhs \<noteq> elements h rhs"
      using length_elements[OF assms(1)] length_elements[OF assms(2)] by auto
    then show ?thesis using False by (simp add: equal_op_def GetSize_def)
  qed
qed

lemma assign_spec:
  assumes neq: "this \<noteq> rhs"
    and inv: "invariant h (s rhs)" "invariant h (s this)"
  shows "\<exists>h' p. assign T h s this rhs
            = Some (h', s(this := \<lparr>sv_size = sv_size (s rhs), sv_capacity = sv_size (s rhs),
                                   sv_data = p\<rparr>))
          \<and> contents h' p = Some (elements h (s rhs))
          \<and> (p = None \<or> contents h p = None)
          \<and> (\<forall>q. q \<noteq> sv_data (s this) \<longrightarrow> contents h q \<noteq> None \<longrightarrow> contents h' q = contents h q)"
proof -
  obtain b where buf: "buffer h (s rhs) = Some b" using inv(1) by (auto simp: invariant_buffer)
  obtain bt where buft: "contents h (sv_data (s this)) = Some bt"
    using inv(2) by (auto simp: invariant_buffer buffer_def)
  let ?n = "sv_size (s rhs)"
  obtain h1 p where copy:
      "SimpleVector_copy T h (s rhs)
         = Some (h1, \<lparr>sv_size = ?n, sv_capacity = ?n, sv_data = p\<rparr>)"
      "contents h1 p = Some (take ?n b)"
      "p = None \<or> contents h p = None"
      "\<forall>q. contents h q \<noteq> None \<longrightarrow> contents h1 q = contents h q"
    using SimpleVector_copy_spec[OF inv(1) buf, of T] by blast
  have "contents h1 (sv_data (s this)) = Some bt" using copy(4) buft by simp
  then obtain h2 where del: "ArrayPtr_delete h1 (sv_data (s this)) = Some h2"
      "\<forall>q. q \<noteq> sv_data (s this) \<longrightarrow> contents h2 q = contents h1 q"
    using ArrayPtr_delete_spec by blast
  have run: "assign T h s this rhs
      = Some (h2, s(this := \<lparr>sv_size = ?n, sv_capacity = ?n, sv_data = p\<rparr>))"
    using neq by (simp add: assign_def copy(1) swap_def ArrayPtr_swap_def destroy_def del(1))
  have cp: "contents h2 p = Some (take ?n b)"
  proof (cases "p = sv_data (s this)")
    case True
    then have "p = None" using copy(3) buft by auto
    then show ?thesis using copy(2) by simp
  next
    case False
    then show ?thesis using del(2) copy(2) by simp
  qed
  have "contents h2 q = contents h q" if "q \<noteq> sv_data (s this)" "contents h q \<noteq> None" for q
    using that del(2) copy(4) by simp
  then show ?thesis using run cp copy(3) buf by (auto simp: elements_def)
qed

section \<open>What each operation does to the vector\<close>

lemma step_ofI:
  assumes "sv_data v' = sv_data v \<or> sv_data v' = None \<or> contents h (sv_data v') = None"
    and "\<And>q. q \<noteq> sv_data v \<Longrightarrow> contents h q \<noteq> None \<Longrightarrow> contents h' q = contents h q"
  shows "step_of h v h' v'"
  using assms by (simp add: step_of_def)

lemma elements_buffer: "buffer h v = Some b \<Longrightarrow> elements h v = take (sv_size v) b"
  by (simp add: elements_def)

lemma PushBack_full:
  assumes inv: "invariant h v"
  shows "\<exists>h' v'. PushBack T h v (Outside x) = Some (h', v')
          \<and> invariant h' v'
          \<and> elements h' v' = elements h v @ [x]
          \<and> sv_size v' = sv_size v + 1
          \<and> sv_capacity v' = (if sv_size v = sv_capacity v
                               then max (sv_size v + 1) (sv_capacity v * 2) else sv_capacity v)
          \<and> load h' (sv_data v') (sv_size v) = Some x
          \<and> step_of h v h' v'"
proof -
  obtain b where buf: "buffer h v = Some b" and len: "length b = sv_capacity v"
      "sv_size v \<le> sv_capacity v"
    using inv by (auto simp: invariant_buffer)
  obtain h' v' b' where push: "PushBack T h v (Outside x) = Some (h', v')"
      "sv_size v' = sv_size v + 1"
      "sv_capacity v' = (if sv_size v = sv_capacity v
                         then max (sv_size v + 1) (sv_capacity v * 2) else sv_capacity v)"
      "buffer h' v' = Some b'" "length b' = sv_capacity v'"
      "take (sv_size v) b' = take (sv_size v) b" "b' ! sv_size v = x"
      "step_of h v h' v'"
    using PushBack_spec[OF inv buf, of T x] by blast
  have lt: "sv_size v < length b'" using push(3,5) len by (simp split: if_splits)
  have "invariant h' v'"
    using push(2,4,5) lt by (simp add: invariant_buffer)
  moreover have "elements h' v' = elements h v @ [x]"
    using push(2,4,6,7) buf lt by (simp add: elements_def take_Suc_conv_app_nth)
  moreover have "load h' (sv_data v') (sv_size v) = Some x"
    using push(4,7) lt load_contents[of h' "sv_data v'" b' "sv_size v"] by (simp add: buffer_def)
  ultimately show ?thesis using push(1,2,3,8) by blast
qed

lemma Insert_full:
  assumes inv: "invariant h v" and pos: "base pos = sv_data v" "offset pos \<le> sv_size v"
  shows "\<exists>h' v'. Insert T h v pos (Outside x) = Some (h', v', Pointer (sv_data v') (offset pos))
          \<and> invariant h' v'
          \<and> elements h' v'
              = take (offset pos) (elements h v) @ [x] @ drop (offset pos) (elements h v)
          \<and> sv_size v' = sv_size v + 1
          \<and> sv_capacity v' = (if sv_size v < sv_capacity v then sv_capacity v
                               else max (sv_size v + 1) (sv_capacity v * 2))
          \<and> (sv_size v < sv_capacity v \<longrightarrow> sv_data v' = sv_data v)
          \<and> step_of h v h' v'"
proof -
  obtain b where buf: "buffer h v = Some b" and len: "length b = sv_capacity v"
      "sv_size v \<le> sv_capacity v"
    using inv by (auto simp: invariant_buffer)
  let ?i = "offset pos"
  have p: "pos = Pointer (sv_data v) ?i" using pos(1) by (cases pos) simp
  have el: "elements h v = take (sv_size v) b" using buf by (simp add: elements_def)
  have mid: "take ?i b @ [x] @ drop ?i (take (sv_size v) b)
      = take ?i (elements h v) @ [x] @ drop ?i (elements h v)"
    using pos(2) by (simp add: el min_absorb1)
  show ?thesis
  proof (cases "sv_size v < sv_capacity v")
    case True
    obtain b' where ins:
        "Insert T h v (Pointer (sv_data v) ?i) (Outside x)
           = Some (put h (sv_data v) b', v\<lparr>sv_size := sv_size v + 1\<rparr>, Pointer (sv_data v) ?i)"
        "length b' = length b"
        "take (sv_size v + 1) b' = take ?i b @ [x] @ drop ?i (take (sv_size v) b)"
      using Insert_headroom[OF inv buf pos(2) True, of T x] by blast
    let ?h' = "put h (sv_data v) b'"
    let ?v' = "v\<lparr>sv_size := sv_size v + 1\<rparr>"
    have b': "buffer ?h' ?v' = Some b'"
      using buffer_put[OF buf ins(2), of ?v'] by simp
    have "invariant ?h' ?v'" using b' ins(2) len True by (simp add: invariant_buffer)
    moreover have "elements ?h' ?v' = take ?i (elements h v) @ [x] @ drop ?i (elements h v)"
      using elements_buffer[OF b'] ins(3) mid by simp
    moreover have "step_of h v ?h' ?v'" by (rule step_of_put) simp
    ultimately show ?thesis using ins(1) True p
      by (intro exI[of _ ?h'] exI[of _ ?v']) simp
  next
    case False
    let ?n = "max (sv_size v + 1) (sv_capacity v * 2)"
    obtain h' q b' where ins:
        "Insert T h v (Pointer (sv_data v) ?i) (Outside x)
           = Some (h', v\<lparr>sv_data := q, sv_capacity := ?n, sv_size := sv_size v + 1\<rparr>, Pointer q ?i)"
        "contents h' q = Some b'" "length b' = ?n"
        "take (sv_size v + 1) b' = take ?i b @ [x] @ drop ?i (take (sv_size v) b)"
        "contents h q = None"
        "\<forall>r. r \<noteq> sv_data v \<longrightarrow> contents h r \<noteq> None \<longrightarrow> contents h' r = contents h r"
      using Insert_realloc[OF inv buf pos(2) False, of T x] by blast
    let ?v' = "v\<lparr>sv_data := q, sv_capacity := ?n, sv_size := sv_size v + 1\<rparr>"
    have b': "buffer h' ?v' = Some b'" using ins(2) by (simp add: buffer_def)
    have "invariant h' ?v'" using b' ins(3) len by (simp add: invariant_buffer)
    moreover have "elements h' ?v' = take ?i (elements h v) @ [x] @ drop ?i (elements h v)"
      using elements_buffer[OF b'] ins(4) mid by simp
    moreover have "step_of h v h' ?v'"
      using ins(5,6) by (intro step_ofI) simp_all
    ultimately show ?thesis using ins(1) False p
      by (intro exI[of _ h'] exI[of _ ?v']) simp
  qed
qed

lemma Erase_full:
  assumes inv: "invariant h v" and pos: "base pos = sv_data v" "offset pos < sv_size v"
  shows "\<exists>h' v'. Erase T h v pos = Some (h', v', Pointer (sv_data v') (offset pos))
          \<and> invariant h' v'
          \<and> elements h' v' = take (offset pos) (elements h v) @ drop (offset pos + 1) (elements h v)
          \<and> sv_size v' = sv_size v - 1
          \<and> sv_capacity v' = sv_capacity v
          \<and> sv_data v' = sv_data v
          \<and> step_of h v h' v'"
proof -
  obtain b where buf: "buffer h v = Some b" and len: "length b = sv_capacity v"
      "sv_size v \<le> sv_capacity v"
    using inv by (auto simp: invariant_buffer)
  let ?i = "offset pos"
  have p: "pos = Pointer (sv_data v) ?i" using pos(1) by (cases pos) simp
  have el: "elements h v = take (sv_size v) b" using buf by (simp add: elements_def)
  obtain b' where er:
      "Erase T h v (Pointer (sv_data v) ?i)
         = Some (put h (sv_data v) b', v\<lparr>sv_size := sv_size v - 1\<rparr>, Pointer (sv_data v) ?i)"
      "length b' = length b"
      "take (sv_size v - 1) b' = take ?i b @ drop (?i + 1) (take (sv_size v) b)"
    using Erase_spec[OF inv buf pos(2), of T] by blast
  let ?h' = "put h (sv_data v) b'"
  let ?v' = "v\<lparr>sv_size := sv_size v - 1\<rparr>"
  have b': "buffer ?h' ?v' = Some b'"
    using buffer_put[OF buf er(2), of ?v'] by simp
  have "invariant ?h' ?v'" using b' er(2) len by (simp add: invariant_buffer)
  moreover have "elements ?h' ?v' = take ?i (elements h v) @ drop (?i + 1) (elements h v)"
    using elements_buffer[OF b'] er(3) pos(2) by (simp add: el min_absorb1)
  moreover have "step_of h v ?h' ?v'" by (rule step_of_put) simp
  ultimately show ?thesis using er(1) p
    by (intro exI[of _ ?h'] exI[of _ ?v']) simp
qed

lemma Resize_full:
  assumes inv: "invariant h v"
  shows "\<exists>h' v'. Resize T h v n = Some (h', v')
          \<and> invariant h' v'
          \<and> sv_size v' = n
          \<and> sv_capacity v' = (if n \<le> sv_capacity v then sv_capacity v
                               else max n (sv_capacity v * 2))
          \<and> elements h' v' = take n (elements h v) @ replicate (n - sv_size v) (Type_default T)
          \<and> (n \<le> sv_size v \<longrightarrow> h' = h)
          \<and> (n \<le> sv_capacity v \<longrightarrow> sv_data v' = sv_data v)
          \<and> step_of h v h' v'"
proof -
  obtain b where buf: "buffer h v = Some b" and len: "length b = sv_capacity v"
      "sv_size v \<le> sv_capacity v"
    using inv by (auto simp: invariant_buffer)
  have el: "elements h v = take (sv_size v) b" using buf by (simp add: elements_def)
  consider "n \<le> sv_size v" | "sv_size v < n" "n \<le> sv_capacity v" | "sv_capacity v < n"
    by linarith
  then show ?thesis
  proof cases
    case 1
    let ?v' = "v\<lparr>sv_size := n\<rparr>"
    have b': "buffer h ?v' = Some b" using buf by (simp add: buffer_def)
    then have "invariant h ?v'" "elements h ?v' = take n (elements h v)"
      using elements_buffer[OF b'] 1 len by (simp_all add: invariant_buffer el min_absorb1)
    moreover have "step_of h v h ?v'" by (simp add: step_of_def)
    ultimately show ?thesis using Resize_shrink[OF 1, of T h] 1 len
      by (intro exI[of _ h] exI[of _ ?v']) simp
  next
    case 2
    let ?b' = "take (sv_size v) b @ replicate (n - sv_size v) (Type_default T) @ drop n b"
    let ?h' = "put h (sv_data v) ?b'"
    let ?v' = "v\<lparr>sv_size := n\<rparr>"
    have lb: "length ?b' = length b" using 2 len by simp
    have b': "buffer ?h' ?v' = Some ?b'" using buffer_put[OF buf lb, of ?v'] by simp
    have "invariant ?h' ?v'" using b' lb len 2 by (simp add: invariant_buffer)
    moreover have "elements ?h' ?v' = take n (elements h v) @ replicate (n - sv_size v) (Type_default T)"
      using elements_buffer[OF b'] 2 len by (simp add: el)
    moreover have "step_of h v ?h' ?v'" by (rule step_of_put) simp
    ultimately show ?thesis using Resize_in_place[OF inv buf 2, of T] 2
      by (intro exI[of _ ?h'] exI[of _ ?v']) simp
  next
    case 3
    let ?m = "max n (sv_capacity v * 2)"
    obtain h' p where rs:
        "Resize T h v n = Some (h', v\<lparr>sv_data := p, sv_capacity := ?m, sv_size := n\<rparr>)"
        "contents h' p = Some (take (sv_size v) b @ replicate (?m - sv_size v) (Type_default T))"
        "contents h p = None"
        "\<forall>q. q \<noteq> sv_data v \<longrightarrow> contents h q \<noteq> None \<longrightarrow> contents h' q = contents h q"
      using Resize_realloc[OF inv buf 3, of T] by blast
    let ?v' = "v\<lparr>sv_data := p, sv_capacity := ?m, sv_size := n\<rparr>"
    have b': "buffer h' ?v' = Some (take (sv_size v) b @ replicate (?m - sv_size v) (Type_default T))"
      using rs(2) by (simp add: buffer_def)
    have "invariant h' ?v'" using b' len 3 by (simp add: invariant_buffer)
    moreover have "elements h' ?v' = take n (elements h v) @ replicate (n - sv_size v) (Type_default T)"
      using elements_buffer[OF b'] len 3 by (simp add: el min_absorb2)
    moreover have "step_of h v h' ?v'" using rs(3,4) by (intro step_ofI) simp_all
    ultimately show ?thesis using rs(1) 3 len
      by (intro exI[of _ h'] exI[of _ ?v']) simp
  qed
qed

lemma Reserve_full:
  assumes inv: "invariant h v"
  shows "\<exists>h' v'. Reserve T h v n = Some (h', v')
          \<and> invariant h' v'
          \<and> sv_size v' = sv_size v
          \<and> sv_capacity v' = max n (sv_capacity v)
          \<and> elements h' v' = elements h v
          \<and> step_of h v h' v'"
proof -
  obtain b where buf: "buffer h v = Some b" and len: "length b = sv_capacity v"
      "sv_size v \<le> sv_capacity v"
    using inv by (auto simp: invariant_buffer)
  show ?thesis
  proof (cases "sv_capacity v < n")
    case True
    obtain h' p where rs:
        "Reserve T h v n = Some (h', v\<lparr>sv_data := p, sv_capacity := n\<rparr>)"
        "contents h' p = Some (take (sv_size v) b @ replicate (n - sv_size v) (Type_default T))"
        "contents h p = None"
        "\<forall>q. q \<noteq> sv_data v \<longrightarrow> contents h q \<noteq> None \<longrightarrow> contents h' q = contents h q"
      using Reserve_realloc[OF inv buf True, of T] by blast
    let ?v' = "v\<lparr>sv_data := p, sv_capacity := n\<rparr>"
    have b': "buffer h' ?v' = Some (take (sv_size v) b @ replicate (n - sv_size v) (Type_default T))"
      using rs(2) by (simp add: buffer_def)
    have "invariant h' ?v'" using b' len True by (simp add: invariant_buffer)
    moreover have "elements h' ?v' = elements h v"
      using elements_buffer[OF b'] len by (simp add: elements_buffer[OF buf])
    moreover have "step_of h v h' ?v'" using rs(3,4) by (intro step_ofI) simp_all
    ultimately show ?thesis using rs(1) True
      by (intro exI[of _ h'] exI[of _ ?v']) simp
  next
    case False
    then have "Reserve T h v n = Some (h, v)" by (simp add: Reserve_def)
    moreover have "step_of h v h v" by (simp add: step_of_def)
    ultimately show ?thesis using inv False by (intro exI[of _ h] exI[of _ v]) (simp add: max_def)
  qed
qed

section \<open>Arguments passed by reference\<close>

lemma load_by_contents:
  "load h p i = (case contents h p of None \<Rightarrow> None
                 | Some b \<Rightarrow> if i < length b then Some (b ! i) else None)"
  by (cases p) (simp_all add: load_def contents_def)

lemma read_argument_after:
  assumes rd: "read_argument h item \<noteq> None"
    and own: "contents h (sv_data v) = Some b" "contents h' (sv_data v) = Some b'"
      "length b' = length b"
    and frame: "\<And>q. q \<noteq> sv_data v \<Longrightarrow> contents h q \<noteq> None \<Longrightarrow> contents h' q = contents h q"
  shows "\<exists>x'. read_argument h' item = Some x'
           \<and> (\<not> inside v item \<longrightarrow> read_argument h item = Some x')"
proof (cases item)
  case (Outside x)
  then show ?thesis by simp
next
  case (Element r)
  show ?thesis
  proof (cases "base r = sv_data v")
    case True
    then show ?thesis using rd own Element
      by (auto simp: deref_def load_by_contents split: if_splits)
  next
    case False
    have "contents h (base r) \<noteq> None"
      using rd Element by (auto simp: deref_def load_by_contents split: option.splits)
    then have "contents h' (base r) = contents h (base r)" using frame False by simp
    then show ?thesis using rd Element False by (auto simp: deref_def load_by_contents)
  qed
qed

lemma read_argument_frame:
  assumes "read_argument h item = Some x" "\<not> inside v item"
    and "\<And>q. q \<noteq> sv_data v \<Longrightarrow> contents h q \<noteq> None \<Longrightarrow> contents h' q = contents h q"
  shows "read_argument h' item = Some x"
proof (cases item)
  case (Outside y)
  then show ?thesis using assms(1) by simp
next
  case (Element r)
  then have ne: "base r \<noteq> sv_data v" using assms(2) by simp
  have "contents h (base r) \<noteq> None"
    using assms(1) Element by (auto simp: deref_def load_by_contents split: option.splits)
  then have "contents h' (base r) = contents h (base r)" using assms(3) ne by simp
  then show ?thesis using assms(1) Element by (simp add: deref_def load_by_contents)
qed

lemma assign_copy_read:
  "read_argument h item = Some x \<Longrightarrow> assign_copy h p i item = store h p i x"
  by (simp add: assign_copy_def)

lemma assign_copy_Some:
  "assign_copy h p i item = Some h' \<Longrightarrow> \<exists>x. read_argument h item = Some x \<and> store h p i x = Some h'"
  by (auto simp: assign_copy_def split: Option.bind_splits)

lemma PushBack_reads:
  assumes "PushBack T h v item = Some r"
  shows "\<exists>x. PushBack T h v (Outside x) = Some r"
proof -
  obtain h1 v1 h2 where a:
      "(if sv_size v \<ge> sv_capacity v
        then (let new_capacity = max (sv_size v + 1) (sv_capacity v * 2)
              in IncreaseCapacity T h v new_capacity)
        else Some (h, v)) = Some (h1, v1)"
      "assign_copy h1 (sv_data v1) (sv_size v1) item = Some h2"
      "r = (h2, v1\<lparr>sv_size := sv_size v1 + 1\<rparr>)"
    using assms unfolding PushBack_def by (auto split: Option.bind_splits)
  obtain x where "store h1 (sv_data v1) (sv_size v1) x = Some h2"
    using assign_copy_Some[OF a(2)] by blast
  then have "PushBack T h v (Outside x) = Some r"
    using a(1,3) unfolding PushBack_def by simp
  then show ?thesis ..
qed

lemma PushBack_argument:
  assumes inv: "invariant h v" and rd: "read_argument h item = Some x"
    and ok: "sv_size v < sv_capacity v \<or> \<not> inside v item"
  shows "PushBack T h v item = PushBack T h v (Outside x)"
proof (cases "sv_size v \<ge> sv_capacity v")
  case False
  then show ?thesis using rd by (simp add: PushBack_def assign_copy_read)
next
  case True
  then have out: "\<not> inside v item" using ok by simp
  obtain b where buf: "buffer h v = Some b" using inv by (auto simp: invariant_buffer)
  let ?n = "max (sv_size v + 1) (sv_capacity v * 2)"
  have "sv_size v \<le> ?n" "0 < ?n" by simp_all
  from IncreaseCapacity_spec[OF inv buf this, of T]
  obtain h1 p where inc:
      "IncreaseCapacity T h v ?n = Some (h1, v\<lparr>sv_data := p, sv_capacity := ?n\<rparr>)"
      "\<forall>q. q \<noteq> sv_data v \<longrightarrow> contents h q \<noteq> None \<longrightarrow> contents h1 q = contents h q"
    by blast
  have "read_argument h1 item = Some x"
    using read_argument_frame[OF rd out] inc(2) by simp
  then show ?thesis using True inc(1) by (simp add: PushBack_def assign_copy_read)
qed

lemma Insert_reads:
  assumes "Insert T h v pos item = Some r"
  shows "\<exists>x. Insert T h v pos (Outside x) = Some r"
proof -
  have guard: "base pos = sv_data v \<and> offset pos \<ge> offset (vbegin v)
      \<and> offset pos \<le> offset (vend v)"
    using assms by (auto simp: Insert_def split: if_splits)
  let ?i = "offset pos - offset (vbegin v)"
  show ?thesis
  proof (cases "sv_size v < sv_capacity v")
    case True
    obtain h1 tr h2 where a:
        "std_copy_backward (Type_moved T) h (sv_data v) ?i (sv_size v) (sv_data v) (sv_size v + 1)
           = Some (h1, tr)"
        "assign_copy h1 (sv_data v) ?i item = Some h2"
        "r = (h2, v\<lparr>sv_size := sv_size v + 1\<rparr>,
              ArrayPtr_index (sv_data (v\<lparr>sv_size := sv_size v + 1\<rparr>)) ?i)"
      using assms guard True unfolding Insert_def
      by (auto simp: Let_def split: Option.bind_splits)
    obtain x where "store h1 (sv_data v) ?i x = Some h2"
      using assign_copy_Some[OF a(2)] by blast
    then have "Insert T h v pos (Outside x) = Some r"
      using guard True a(1,3) unfolding Insert_def by (simp add: Let_def)
    then show ?thesis ..
  next
    case False
    let ?n = "max (sv_size v + 1) (sv_capacity v * 2)"
    obtain h1 new_data where new: "ArrayPtr_new T h ?n = (h1, new_data)"
      by (cases "ArrayPtr_new T h ?n") auto
    obtain h2 h3 h4 h5 where a:
        "std_copy (Some (Type_moved T)) h1 (sv_data v) 0 ?i new_data 0 = Some h2"
        "assign_copy h2 new_data ?i item = Some h3"
        "std_copy (Some (Type_moved T)) h3 (sv_data v) ?i (sv_size v) new_data (?i + 1) = Some h4"
        "ArrayPtr_delete h4 (sv_data v) = Some h5"
        "r = (h5, v\<lparr>sv_data := new_data, sv_capacity := ?n, sv_size := sv_size v + 1\<rparr>,
              ArrayPtr_index new_data ?i)"
      using assms guard False new unfolding Insert_def
      by (auto simp: Let_def ArrayPtr_swap_def split: Option.bind_splits)
    obtain x where "store h2 new_data ?i x = Some h3"
      using assign_copy_Some[OF a(2)] by blast
    then have "Insert T h v pos (Outside x) = Some r"
      using guard False new a(1,3,4,5) unfolding Insert_def
      by (simp add: Let_def ArrayPtr_swap_def)
    then show ?thesis ..
  qed
qed

lemma Insert_argument:
  assumes inv: "invariant h v" and idx: "index \<le> sv_size v"
    and rd: "read_argument h item \<noteq> None"
  shows "\<exists>x'. Insert T h v (Pointer (sv_data v) index) item
              = Insert T h v (Pointer (sv_data v) index) (Outside x')
           \<and> (\<not> inside v item \<longrightarrow> read_argument h item = Some x')"
proof -
  obtain b where buf: "buffer h v = Some b" and len: "length b = sv_capacity v"
      "sv_size v \<le> sv_capacity v"
    using inv by (auto simp: invariant_buffer)
  have cs: "contents h (sv_data v) = Some b" using buf by (simp add: buffer_def)
  show ?thesis
  proof (cases "sv_size v < sv_capacity v")
    case True
    let ?n = "sv_size v - index"
    have sz: "index + ?n = sv_size v" using idx by simp
    have lt: "index + ?n < length b" using sz True len by simp
    obtain b1 tr where shift:
        "std_copy_backward (Type_moved T) h (sv_data v) index (index + ?n) (sv_data v)
           (index + ?n + 1) = Some (put h (sv_data v) b1, tr)"
        "length b1 = length b"
      using std_copy_backward_right[OF cs lt, of "Type_moved T"] by blast
    let ?h1 = "put h (sv_data v) b1"
    have c1: "contents ?h1 (sv_data v) = Some b1"
      using cs shift(2) by (simp add: contents_put_same)
    obtain x' where x': "read_argument ?h1 item = Some x'"
        "\<not> inside v item \<longrightarrow> read_argument h item = Some x'"
      using read_argument_after[OF rd cs c1 shift(2)] by (auto simp: contents_put_other)
    have "Insert T h v (Pointer (sv_data v) index) item
        = Insert T h v (Pointer (sv_data v) index) (Outside x')"
      using idx True shift(1) x'(1) unfolding sz
      by (simp add: Insert_def vbegin_def vend_def assign_copy_read)
    then show ?thesis using x'(2) by blast
  next
    case False
    let ?src = "sv_data v"
    let ?p = "Some (length h)"
    define n where "n = max (sv_size v + 1) (sv_capacity v * 2)"
    define bt where "bt = replicate n (Type_default T)"
    define h1 where "h1 = h @ [Some bt]"
    have n: "sv_size v < n" by (simp add: n_def)
    have lbt: "length bt = n" by (simp add: bt_def)
    have new: "ArrayPtr_new T h n = (h1, ?p)"
      unfolding h1_def bt_def by (rule ArrayPtr_new_pos) (simp add: n_def)
    have ne: "?src \<noteq> ?p" using cs contents_fresh[of h] by auto
    have cs1: "contents h1 ?src = Some b" using cs by (simp add: h1_def contents_append_old)
    have cp1: "contents h1 ?p = Some bt" unfolding h1_def by (rule contents_append_new)
    obtain bs1 bt1 where copy1:
        "std_copy (Some (Type_moved T)) h1 ?src 0 index ?p 0 = Some (put (put h1 ?p bt1) ?src bs1)"
        "length bs1 = length b"
    proof -
      have "0 + index \<le> length b" "0 + index \<le> length bt" using idx len n lbt by simp_all
      from std_copy_distinct[OF cs1 cp1 disjI1[OF ne] this, of "Some (Type_moved T)"]
      show ?thesis using that by auto
    qed
    define h2 where "h2 = put (put h1 ?p bt1) ?src bs1"
    have cs2: "contents h2 ?src = Some bs1"
      unfolding h2_def using cs1 ne copy1(2) by (simp add: contents_put_same contents_put_other)
    have frame: "contents h2 q = contents h q" if "q \<noteq> ?src" "contents h q \<noteq> None" for q
    proof -
      have "q \<noteq> ?p" using that(2) contents_fresh[of h] by auto
      then have "contents h2 q = contents h1 q"
        using that(1) by (simp add: h2_def contents_put_other)
      then show ?thesis using that(2) by (simp add: h1_def contents_append_old)
    qed
    obtain x' where x': "read_argument h2 item = Some x'"
        "\<not> inside v item \<longrightarrow> read_argument h item = Some x'"
      using read_argument_after[OF rd cs cs2 copy1(2)] frame by blast
    have "Insert T h v (Pointer ?src index) item = Insert T h v (Pointer ?src index) (Outside x')"
      using idx False new[unfolded n_def] copy1(1) x'(1) unfolding h2_def[symmetric]
      by (simp add: Insert_def vbegin_def vend_def assign_copy_read)
    then show ?thesis using x'(2) by blast
  qed
qed

lemma assign_move_Outside: "assign_move T h p i (Outside x) = store h p i x"
  by (cases p) (auto simp: assign_move_def load_def store_def split: option.splits)

lemma PushBack_rvalue_Outside: "PushBack_rvalue T h v (Outside x) = PushBack T h v (Outside x)"
  by (simp add: PushBack_rvalue_def PushBack_def assign_move_Outside)

lemma Insert_rvalue_Outside: "Insert_rvalue T h v pos (Outside x) = Insert T h v pos (Outside x)"
  by (simp only: Insert_rvalue_def Insert_def assign_move_Outside assign_copy_Outside)

section \<open>The properties of the specification\<close>

lemma At_element:
  assumes "invariant h v" "i < sv_size v"
  shows "deref h (Pointer (sv_data v) i) = Some (elements h v ! i)"
proof -
  obtain b where b: "buffer h v = Some b" "length b = sv_capacity v" "sv_size v \<le> sv_capacity v"
    using assms(1) by (auto simp: invariant_buffer)
  have "load h (sv_data v) i = Some (b ! i)"
    using b assms(2) by (intro load_contents) (simp_all add: buffer_def)
  then show ?thesis using assms(2) by (simp add: deref_def elements_buffer[OF b(1)])
qed

lemma invariant_examples:
  "invariant example_heap example_vector" "invariant example_heap full_vector"
  "invariant example_heap SimpleVector_default"
  by (simp_all add: invariant_def buffer_def contents_def block_def example_heap_def
      example_vector_def full_vector_def SimpleVector_default_def)

lemma invariant_frame:
  assumes "invariant h w" "contents h' (sv_data w) = contents h (sv_data w)"
  shows "invariant h' w" "elements h' w = elements h w"
  using assms by (simp_all add: invariant_def elements_def buffer_def)

lemma assign_full:
  assumes neq: "this \<noteq> rhs"
    and inv: "invariant h (s rhs)" "invariant h (s this)"
    and sep: "separate (s this) (s rhs)"
  shows "\<exists>h' s'. assign T h s this rhs = Some (h', s')
          \<and> elements h' (s' this) = elements h (s rhs)
          \<and> sv_size (s' this) = sv_size (s rhs)
          \<and> sv_capacity (s' this) = sv_size (s rhs)
          \<and> s' rhs = s rhs
          \<and> elements h' (s' rhs) = elements h (s rhs)
          \<and> invariant h' (s' rhs) \<and> invariant h' (s' this)"
proof -
  let ?n = "sv_size (s rhs)"
  obtain h' p where a:
      "assign T h s this rhs
         = Some (h', s(this := \<lparr>sv_size = ?n, sv_capacity = ?n, sv_data = p\<rparr>))"
      "contents h' p = Some (elements h (s rhs))"
      "\<forall>q. q \<noteq> sv_data (s this) \<longrightarrow> contents h q \<noteq> None \<longrightarrow> contents h' q = contents h q"
    using assign_spec[OF neq inv, of T] by blast
  let ?t = "\<lparr>sv_size = ?n, sv_capacity = ?n, sv_data = p\<rparr>"
  let ?s' = "s(this := ?t)"
  have len: "length (elements h (s rhs)) = ?n" using inv(1) by (rule length_elements)
  have bt: "buffer h' ?t = Some (elements h (s rhs))" using a(2) by (simp add: buffer_def)
  have it: "invariant h' ?t" using bt len by (simp add: invariant_buffer)
  have et: "elements h' ?t = elements h (s rhs)"
    using elements_buffer[OF bt] len by simp
  have live: "contents h (sv_data (s rhs)) \<noteq> None"
    using inv(1) by (auto simp: invariant_buffer buffer_def)
  have same: "contents h' (sv_data (s rhs)) = contents h (sv_data (s rhs))"
  proof (cases "sv_data (s rhs) = sv_data (s this)")
    case True
    then have "sv_data (s rhs) = None" using sep by (auto simp: separate_def)
    then show ?thesis by simp
  next
    case False
    then show ?thesis using a(3) live by simp
  qed
  have "invariant h' (s rhs)" "elements h' (s rhs) = elements h (s rhs)"
    using invariant_frame[OF inv(1) same] by simp_all
  then show ?thesis using a(1) it et neq
    by (intro exI[of _ h'] exI[of _ ?s']) simp
qed

text \<open>
  C1, as it holds of the code. Move construction gives the new vector the elements, size and capacity
  of the source and leaves the source with size 0 and capacity 0. The class has no move
  assignment: \<^verbatim>\<open>moved = std::move(original)\<close> runs the copy assignment, after which
  \<open>moved\<close> holds the elements of \<open>original\<close>, and \<open>original\<close> is unchanged.
\<close>

theorem move_construction_and_assignment:
  assumes "invariant h (s original)" "invariant h (s moved)"
    and "moved \<noteq> original" "separate (s moved) (s original)"
  shows "elements h (fst (SimpleVector_move (s original))) = elements h (s original)
       \<and> sv_size (snd (SimpleVector_move (s original))) = 0
       \<and> sv_capacity (snd (SimpleVector_move (s original))) = 0
       \<and> (\<exists>h' s'. assign T h s moved original = Some (h', s')
            \<and> elements h' (s' moved) = elements h (s original)
            \<and> s' original = s original
            \<and> elements h' (s' original) = elements h (s original)
            \<and> invariant h' (s' original))"
proof -
  have "elements h (fst (SimpleVector_move (s original))) = elements h (s original)"
    by (simp add: SimpleVector_move_def Release_def elements_def buffer_def split: option.splits)
  moreover have "sv_size (snd (SimpleVector_move (s original))) = 0"
      "sv_capacity (snd (SimpleVector_move (s original))) = 0"
    by (simp_all add: SimpleVector_move_def Release_def)
  moreover have "\<exists>h' s'. assign T h s moved original = Some (h', s')
            \<and> elements h' (s' moved) = elements h (s original)
            \<and> s' original = s original
            \<and> elements h' (s' original) = elements h (s original)
            \<and> invariant h' (s' original)"
    using assign_full[OF assms(3,1,2,4), of T] by blast
  ultimately show ?thesis by blast
qed

theorem move_construction_and_assignment_witness:
  "invariant example_heap (example_objects 1) \<and> invariant example_heap (example_objects 0)
   \<and> (0::nat) \<noteq> 1 \<and> separate (example_objects 0) (example_objects 1)
   \<and> elements example_heap (fst (SimpleVector_move (example_objects 1))) = [1, 2, 3]
   \<and> sv_size (snd (SimpleVector_move (example_objects 1))) = 0
   \<and> sv_capacity (snd (SimpleVector_move (example_objects 1))) = 0
   \<and> (\<exists>h' s'. assign int_Type example_heap example_objects 0 1 = Some (h', s')
         \<and> elements h' (s' 0) = [1, 2, 3]
         \<and> s' 1 = example_objects 1
         \<and> elements h' (s' 1) = [1, 2, 3]
         \<and> invariant h' (s' 1))"
proof -
  have o: "example_objects 1 = example_vector" "example_objects 0 = SimpleVector_default"
    by (simp_all add: example_objects_def)
  have h: "invariant example_heap (example_objects 1)" "invariant example_heap (example_objects 0)"
    "(0::nat) \<noteq> 1" "separate (example_objects 0) (example_objects 1)"
    unfolding o using invariant_examples
    by (simp_all add: separate_def SimpleVector_default_def example_vector_def)
  have e: "elements example_heap (example_objects 1) = [1, 2, 3]"
    unfolding o
    by (simp add: elements_def buffer_def contents_def block_def example_heap_def
        example_vector_def)
  show ?thesis
    using move_construction_and_assignment[OF h, of int_Type] h unfolding e by simp
qed

theorem move_assignment_counterexample:
  "observe (assign int_Type example_heap example_objects 0 1) 1 = Some (3, 4, [1, 2, 3])"
  by code_simp

text \<open>
  C2, as it holds of the code. \<^verbatim>\<open>At(index)\<close> with \<open>index \<ge> size\<close> throws \<^verbatim>\<open>std::out_of_range\<close> with one
  fixed message, whatever the index and the vector; with \<open>index < size\<close> it returns the
  reference to the slot that holds the element at that position.
\<close>

theorem At_checked:
  assumes "invariant h v"
  shows "(index \<ge> sv_size v \<longrightarrow> At v index = Inl (out_of_range At_message))
       \<and> (index < sv_size v \<longrightarrow>
            (\<exists>r. At v index = Inr r \<and> deref h r = Some (elements h v ! index)))"
  using At_element[OF assms, of index] by (simp add: At_def)

theorem At_checked_witness:
  "invariant example_heap example_vector
   \<and> (5::nat) \<ge> sv_size example_vector \<and> At example_vector 5 = Inl (out_of_range At_message)
   \<and> (1::nat) < sv_size example_vector
   \<and> (\<exists>r. At example_vector 1 = Inr r \<and> deref example_heap r = Some (2::int))"
proof -
  have e: "elements example_heap example_vector ! 1 = 2"
    by (simp add: elements_def buffer_def contents_def block_def example_heap_def
        example_vector_def)
  have s: "sv_size example_vector = 3" by (simp add: example_vector_def)
  show ?thesis
    using At_checked[OF invariant_examples(1), of 5] At_checked[OF invariant_examples(1), of 1]
      invariant_examples(1) unfolding e s by simp
qed

theorem At_counterexample:
  "At SimpleVector_default 5 = Inl (out_of_range At_message)
   \<and> At SimpleVector_default 7 = Inl (out_of_range At_message)"
  by (simp add: At_def SimpleVector_default_def)

lemma PushBack_all_append:
  "PushBack_all T h v (xs @ [x])
     = do { (h1, v1) \<leftarrow> PushBack_all T h v xs; PushBack T h1 v1 (Outside x) }"
proof (induction xs arbitrary: h v)
  case Nil
  then show ?case by (simp split: Option.bind_split)
next
  case (Cons y ys)
  then show ?case by (simp split: Option.bind_split prod.split)
qed

lemma doubling_step:
  fixes k c :: nat
  assumes "k \<le> c" and "(k = 0 \<and> c = 0) \<or> (\<exists>n. c = 2 ^ n \<and> c < 2 * k)"
  shows "\<exists>n. (if k = c then max (k + 1) (c * 2) else c) = 2 ^ n
           \<and> k + 1 \<le> 2 ^ n \<and> 2 ^ n < 2 * (k + 1)"
proof (cases "k = c")
  case True
  show ?thesis
  proof (cases "k = 0")
    case True
    with \<open>k = c\<close> show ?thesis by (intro exI[of _ 0]) simp
  next
    case False
    then obtain n where n: "c = 2 ^ n" using assms(2) by auto
    show ?thesis using True n by (intro exI[of _ "Suc n"]) (simp add: max_def)
  qed
next
  case False
  then have "k \<noteq> 0 \<or> c \<noteq> 0" using assms(1) by auto
  then obtain n where n: "c = 2 ^ n" "c < 2 * k" using assms(2) by auto
  show ?thesis using False n assms(1) by (intro exI[of _ n]) simp
qed

lemma PushBack_all_full:
  "\<exists>h' v'. PushBack_all T h SimpleVector_default xs = Some (h', v')
     \<and> invariant h' v' \<and> sv_size v' = length xs \<and> elements h' v' = xs
     \<and> ((xs = [] \<and> sv_capacity v' = 0)
        \<or> (\<exists>n. sv_capacity v' = 2 ^ n \<and> length xs \<le> 2 ^ n \<and> 2 ^ n < 2 * length xs))"
proof (induction xs rule: rev_induct)
  case Nil
  then show ?case
    by (simp add: SimpleVector_default_def invariant_def elements_def buffer_def)
next
  case (snoc x xs)
  then obtain h1 v1 where run: "PushBack_all T h SimpleVector_default xs = Some (h1, v1)"
      and inv: "invariant h1 v1" and sz: "sv_size v1 = length xs"
      and el: "elements h1 v1 = xs"
      and cap: "(xs = [] \<and> sv_capacity v1 = 0)
        \<or> (\<exists>n. sv_capacity v1 = 2 ^ n \<and> length xs \<le> 2 ^ n \<and> 2 ^ n < 2 * length xs)"
    by blast
  obtain h' v' where push: "PushBack T h1 v1 (Outside x) = Some (h', v')" "invariant h' v'"
      "elements h' v' = elements h1 v1 @ [x]" "sv_size v' = sv_size v1 + 1"
      "sv_capacity v' = (if sv_size v1 = sv_capacity v1
                         then max (sv_size v1 + 1) (sv_capacity v1 * 2) else sv_capacity v1)"
    using PushBack_full[OF inv, of T x] by blast
  have le: "sv_size v1 \<le> sv_capacity v1" using inv by (simp add: invariant_buffer)
  have "(sv_size v1 = 0 \<and> sv_capacity v1 = 0)
      \<or> (\<exists>n. sv_capacity v1 = 2 ^ n \<and> sv_capacity v1 < 2 * sv_size v1)"
    using cap sz by auto
  from doubling_step[OF le this]
  obtain n where "sv_capacity v' = 2 ^ n" "length (xs @ [x]) \<le> 2 ^ n"
      "2 ^ n < 2 * length (xs @ [x])"
    using push(5) sz by auto
  then show ?case
    using run push(1,2,3,4) sz el
    by (intro exI[of _ h'] exI[of _ v']) (auto simp: PushBack_all_append)
qed

text \<open>
  What holds of \<^verbatim>\<open>PushBack\<close> when the object of the argument is still there at the
  assignment, that is when the vector has room or the argument is not one of its own
  elements: the capacity grows to \<open>max (size + 1) (capacity * 2)\<close> exactly when
  \<open>size = capacity\<close> (from capacity 0 to capacity 1), the value goes into slot \<open>size\<close>
  and the size grows by one. After pushing the values of a list \<open>xs\<close> onto a
  default-constructed vector, the size is the length of \<open>xs\<close>, the elements are \<open>xs\<close> in
  order, and the capacity is 0 for no push and otherwise the power of two with
  \<open>length xs \<le> capacity < 2 * length xs\<close>: 1, 2, 4, 4, 8, ...
\<close>

lemma PushBack_grows:
  assumes "invariant h v" "read_argument h item = Some x"
    and "sv_size v < sv_capacity v \<or> \<not> inside v item"
  shows "(\<exists>h' v'. PushBack T h v item = Some (h', v')
           \<and> sv_capacity v' = (if sv_size v = sv_capacity v
                                then max (sv_size v + 1) (sv_capacity v * 2) else sv_capacity v)
           \<and> (sv_capacity v = 0 \<longrightarrow> sv_capacity v' = 1)
           \<and> load h' (sv_data v') (sv_size v) = Some x
           \<and> sv_size v' = sv_size v + 1
           \<and> elements h' v' = elements h v @ [x])
       \<and> (\<exists>h' v'. PushBack_all T h SimpleVector_default xs = Some (h', v')
           \<and> sv_size v' = length xs
           \<and> elements h' v' = xs
           \<and> (xs = [] \<longrightarrow> sv_capacity v' = 0)
           \<and> (xs \<noteq> [] \<longrightarrow>
                (\<exists>n. sv_capacity v' = 2 ^ n \<and> length xs \<le> 2 ^ n \<and> 2 ^ n < 2 * length xs)))"
proof -
  have arg: "PushBack T h v item = PushBack T h v (Outside x)"
    using assms by (rule PushBack_argument)
  obtain h' v' where push: "PushBack T h v (Outside x) = Some (h', v')"
      "elements h' v' = elements h v @ [x]" "sv_size v' = sv_size v + 1"
      "sv_capacity v' = (if sv_size v = sv_capacity v
                         then max (sv_size v + 1) (sv_capacity v * 2) else sv_capacity v)"
      "load h' (sv_data v') (sv_size v) = Some x"
    using PushBack_full[OF assms(1), of T x] by blast
  have "sv_capacity v = 0 \<longrightarrow> sv_capacity v' = 1"
    using push(4) assms(1) by (auto simp: invariant_buffer)
  then have one: "\<exists>h' v'. PushBack T h v item = Some (h', v')
           \<and> sv_capacity v' = (if sv_size v = sv_capacity v
                                then max (sv_size v + 1) (sv_capacity v * 2) else sv_capacity v)
           \<and> (sv_capacity v = 0 \<longrightarrow> sv_capacity v' = 1)
           \<and> load h' (sv_data v') (sv_size v) = Some x
           \<and> sv_size v' = sv_size v + 1
           \<and> elements h' v' = elements h v @ [x]"
    using push unfolding arg by (intro exI[of _ h'] exI[of _ v']) simp
  obtain h2 v2 where all: "PushBack_all T h SimpleVector_default xs = Some (h2, v2)"
      "sv_size v2 = length xs" "elements h2 v2 = xs"
      "(xs = [] \<and> sv_capacity v2 = 0)
        \<or> (\<exists>n. sv_capacity v2 = 2 ^ n \<and> length xs \<le> 2 ^ n \<and> 2 ^ n < 2 * length xs)"
    using PushBack_all_full[of T h xs] by blast
  have "xs = [] \<longrightarrow> sv_capacity v2 = 0" using all(4) by auto
  moreover have "xs \<noteq> [] \<longrightarrow>
      (\<exists>n. sv_capacity v2 = 2 ^ n \<and> length xs \<le> 2 ^ n \<and> 2 ^ n < 2 * length xs)"
    using all(4) by auto
  ultimately have "\<exists>h' v'. PushBack_all T h SimpleVector_default xs = Some (h', v')
           \<and> sv_size v' = length xs
           \<and> elements h' v' = xs
           \<and> (xs = [] \<longrightarrow> sv_capacity v' = 0)
           \<and> (xs \<noteq> [] \<longrightarrow>
                (\<exists>n. sv_capacity v' = 2 ^ n \<and> length xs \<le> 2 ^ n \<and> 2 ^ n < 2 * length xs))"
    using all(1,2,3) by (intro exI[of _ h2] exI[of _ v2]) simp
  with one show ?thesis by (rule conjI)
qed


lemma example_facts:
  "sv_size example_vector = 3" "sv_capacity example_vector = 4" "sv_data example_vector = Some 0"
  "sv_size full_vector = 3" "sv_capacity full_vector = 3" "sv_data full_vector = Some 1"
  "elements example_heap example_vector = [1, 2, 3]"
  "elements example_heap full_vector = [4, 5, 6]"
  "elements example_heap SimpleVector_default = []"
  "sv_size SimpleVector_default = 0" "sv_capacity SimpleVector_default = 0"
  "sv_data SimpleVector_default = None"
  by (simp_all add: elements_def buffer_def contents_def block_def example_heap_def
      example_vector_def full_vector_def SimpleVector_default_def)

lemma PushBack_grows_witness:
  "invariant example_heap full_vector
   \<and> (\<exists>h' v'. PushBack int_Type example_heap full_vector (Outside 7) = Some (h', v')
         \<and> sv_capacity v' = 6 \<and> load h' (sv_data v') 3 = Some 7 \<and> sv_size v' = 4
         \<and> elements h' v' = [4, 5, 6, 7])
   \<and> (\<exists>h' v'. PushBack_all int_Type example_heap SimpleVector_default [1, 2, 3] = Some (h', v')
         \<and> sv_size v' = length [1, 2, 3 :: int] \<and> elements h' v' = [1, 2, 3]
         \<and> (\<exists>n. sv_capacity v' = 2 ^ n \<and> length [1, 2, 3 :: int] \<le> 2 ^ n
                \<and> 2 ^ n < 2 * length [1, 2, 3 :: int]))
   \<and> invariant example_heap SimpleVector_default
   \<and> (\<exists>h' v'. PushBack int_Type example_heap SimpleVector_default (Outside 7) = Some (h', v')
         \<and> sv_capacity v' = 1 \<and> load h' (sv_data v') 0 = Some 7 \<and> sv_size v' = 1
         \<and> elements h' v' = [7])
   \<and> (\<exists>h' v'. PushBack_all int_Type example_heap SimpleVector_default [] = Some (h', v')
         \<and> sv_size v' = 0 \<and> elements h' v' = ([] :: int list) \<and> sv_capacity v' = 0)"
  using PushBack_grows[OF invariant_examples(2), of "Outside 7" 7 int_Type "[1, 2, 3]"]
    PushBack_grows[OF invariant_examples(3), of "Outside 7" 7 int_Type "[]"]
    invariant_examples(2,3)
  by (simp add: example_facts)

text \<open>
  C3. \<^verbatim>\<open>PushBack(value)\<close> is to write the value into slot \<open>size\<close> for every vector. The
  code does not when the vector is full and the argument is one of its own elements, as in
  \<^verbatim>\<open>v.PushBack(v[0])\<close>: \<^verbatim>\<open>IncreaseCapacity\<close> has released the block of the argument
  before the assignment reads it, which is undefined behaviour. On a vector with room the
  same call appends the element.
\<close>

theorem PushBack_own_element:
  "PushBack int_Type example_heap full_vector (Element (Pointer (Some 1) 0)) = None
   \<and> PushBack int_Type example_heap example_vector (Element (Pointer (Some 0) 0))
       = Some ([Some [1, 2, 3, 1], Some [4, 5, 6]],
               \<lparr>sv_size = 4, sv_capacity = 4, sv_data = Some 0\<rparr>)"
  by code_simp

lemma shift_trace:
  "set (concat (map (\<lambda>i. [Moved_from i, Assigned (i + 1)]) (rev [f..<l])))
     = Moved_from ` {f..<l} \<union> Assigned ` {f + 1..<l + 1}"
proof -
  have "set (concat (map (\<lambda>i. [Moved_from i, Assigned (i + 1)]) (rev [f..<l])))
      = Moved_from ` {f..<l} \<union> Assigned ` Suc ` {f..<l}"
    by (auto simp del: image_Suc_atLeastLessThan)
  then show ?thesis by (simp only: image_Suc_atLeastLessThan Suc_eq_plus1)
qed

text \<open>
  What holds of \<^verbatim>\<open>Insert(position, value)\<close> at a position of offset \<open>index\<close> in
  \<open>[begin, end]\<close> when the argument is not an element of the vector itself: the result
  has the elements before \<open>index\<close>, then the value, then the elements from \<open>index\<close> on;
  the size grows by one and the returned iterator points to the slot \<open>index\<close> of the
  vector, which holds the value. When \<open>size < capacity\<close> the vector keeps its block and
  capacity, and the backward shift moves from the slots \<open>[index, size)\<close> only and assigns
  the slots \<open>(index, size]\<close> only: beyond the old elements it assigns slot \<open>size\<close> and
  nothing else; this holds for every argument.
\<close>

lemma Insert_shifts:
  assumes "invariant h v" "base pos = sv_data v" "offset pos \<le> sv_size v"
    and "read_argument h item = Some x" "\<not> inside v item"
  shows "\<exists>h' v'. Insert T h v pos item = Some (h', v', Pointer (sv_data v') (offset pos))
          \<and> elements h' v'
              = take (offset pos) (elements h v) @ [x] @ drop (offset pos) (elements h v)
          \<and> sv_size v' = sv_size v + 1
          \<and> deref h' (Pointer (sv_data v') (offset pos)) = Some x
          \<and> (sv_size v < sv_capacity v \<longrightarrow>
               sv_data v' = sv_data v \<and> sv_capacity v' = sv_capacity v
               \<and> (\<exists>h1 tr. std_copy_backward (Type_moved T) h (sv_data v) (offset pos) (sv_size v)
                              (sv_data v) (sv_size v + 1) = Some (h1, tr)
                    \<and> (\<forall>i. Moved_from i \<in> set tr \<longrightarrow> offset pos \<le> i \<and> i < sv_size v)
                    \<and> (\<forall>i. Assigned i \<in> set tr \<longrightarrow> offset pos < i \<and> i \<le> sv_size v)
                    \<and> (offset pos < sv_size v \<longrightarrow> Assigned (sv_size v) \<in> set tr)))"
proof -
  let ?i = "offset pos"
  let ?ys = "take ?i (elements h v) @ [x] @ drop ?i (elements h v)"
  have arg: "Insert T h v pos item = Insert T h v pos (Outside x)"
  proof -
    have p: "pos = Pointer (sv_data v) ?i" using assms(2) by (cases pos) simp
    have "read_argument h item \<noteq> None" using assms(4) by simp
    from Insert_argument[OF assms(1,3) this, of T] show ?thesis
      using assms(4,5) p by auto
  qed
  obtain h' v' where ins: "Insert T h v pos item = Some (h', v', Pointer (sv_data v') ?i)"
      "invariant h' v'" "elements h' v' = ?ys" "sv_size v' = sv_size v + 1"
      "sv_capacity v' = (if sv_size v < sv_capacity v then sv_capacity v
                         else max (sv_size v + 1) (sv_capacity v * 2))"
      "sv_size v < sv_capacity v \<longrightarrow> sv_data v' = sv_data v"
    using Insert_full[OF assms(1,2,3), of T x] unfolding arg by blast
  have len: "length (elements h v) = sv_size v" using assms(1) by (rule length_elements)
  have "?ys ! ?i = x" using assms(3) len by (simp add: nth_append)
  then have slot: "deref h' (Pointer (sv_data v') ?i) = Some x"
    using At_element[OF ins(2), of ?i] ins(3,4) assms(3) by simp
  have shift: "\<exists>h1 tr. std_copy_backward (Type_moved T) h (sv_data v) ?i (sv_size v)
                   (sv_data v) (sv_size v + 1) = Some (h1, tr)
         \<and> (\<forall>i. Moved_from i \<in> set tr \<longrightarrow> ?i \<le> i \<and> i < sv_size v)
         \<and> (\<forall>i. Assigned i \<in> set tr \<longrightarrow> ?i < i \<and> i \<le> sv_size v)
         \<and> (?i < sv_size v \<longrightarrow> Assigned (sv_size v) \<in> set tr)"
    if room: "sv_size v < sv_capacity v"
  proof -
    obtain b where buf: "buffer h v = Some b" using assms(1) by (auto simp: invariant_buffer)
    let ?tr = "concat (map (\<lambda>i. [Moved_from i, Assigned (i + 1)]) (rev [?i..<sv_size v]))"
    obtain h1 where "std_copy_backward (Type_moved T) h (sv_data v) ?i (sv_size v)
        (sv_data v) (sv_size v + 1) = Some (h1, ?tr)"
      using Insert_headroom[OF assms(1) buf assms(3) room, of T x] by blast
    moreover have "set ?tr = Moved_from ` {?i..<sv_size v} \<union> Assigned ` {?i + 1..<sv_size v + 1}"
      by (rule shift_trace)
    ultimately show ?thesis by (intro exI[of _ h1] exI[of _ ?tr]) auto
  qed
  show ?thesis
    using ins(1,3,4,5,6) slot shift by (intro exI[of _ h'] exI[of _ v']) simp
qed

lemma Insert_shifts_witness:
  "invariant example_heap example_vector \<and> base (Pointer (Some 0) 1) = sv_data example_vector
   \<and> offset (Pointer (Some 0) 1) \<le> sv_size example_vector
   \<and> sv_size example_vector < sv_capacity example_vector
   \<and> (\<exists>h' v'. Insert int_Type example_heap example_vector (Pointer (Some 0) 1) (Outside 9)
                 = Some (h', v', Pointer (sv_data v') 1)
         \<and> elements h' v' = [1, 9, 2, 3]
         \<and> sv_size v' = 4
         \<and> deref h' (Pointer (sv_data v') 1) = Some 9
         \<and> sv_data v' = Some 0 \<and> sv_capacity v' = 4
         \<and> (\<exists>h1 tr. std_copy_backward (Type_moved int_Type) example_heap (Some 0) 1 3 (Some 0) 4
                        = Some (h1, tr)
              \<and> (\<forall>i. Moved_from i \<in> set tr \<longrightarrow> 1 \<le> i \<and> i < 3)
              \<and> (\<forall>i. Assigned i \<in> set tr \<longrightarrow> 1 < i \<and> i \<le> 3)
              \<and> Assigned 3 \<in> set tr))
   \<and> invariant example_heap full_vector \<and> base (Pointer (Some 1) 3) = sv_data full_vector
   \<and> offset (Pointer (Some 1) 3) \<le> sv_size full_vector
   \<and> (\<exists>h' v'. Insert int_Type example_heap full_vector (Pointer (Some 1) 3) (Outside 9)
                 = Some (h', v', Pointer (sv_data v') 3)
         \<and> elements h' v' = [4, 5, 6, 9]
         \<and> sv_size v' = 4
         \<and> deref h' (Pointer (sv_data v') 3) = Some 9)"
proof -
  have a: "invariant example_heap example_vector" "base (Pointer (Some 0) 1) = sv_data example_vector"
    "offset (Pointer (Some 0) 1) \<le> sv_size example_vector"
    using invariant_examples by (simp_all add: example_facts)
  have b: "invariant example_heap full_vector" "base (Pointer (Some 1) 3) = sv_data full_vector"
    "offset (Pointer (Some 1) 3) \<le> sv_size full_vector"
    using invariant_examples by (simp_all add: example_facts)
  have r: "read_argument example_heap (Outside 9) = Some (9::int)"
    "\<not> inside example_vector (Outside (9::int))" "\<not> inside full_vector (Outside (9::int))"
    by simp_all
  show ?thesis
    using Insert_shifts[OF a r(1,2), of int_Type] Insert_shifts[OF b r(1,3), of int_Type] a b
    by (simp add: example_facts)
qed

text \<open>
  C4. \<^verbatim>\<open>Insert(position, value)\<close> is to place the value at the position for every
  vector. The code does not when the argument is an element of the vector itself, because
  it reads the argument after it has changed the block. With room,
  \<^verbatim>\<open>v.Insert(v.begin(), v[1])\<close> on \<open>[1, 2, 3]\<close> reads slot 1 after the shift and
  gives \<open>[1, 1, 2, 3]\<close>, not \<open>[2, 1, 2, 3]\<close>. On a full vector
  \<^verbatim>\<open>v.Insert(v.end(), v[0])\<close> reads slot 0 after it was moved from: for an element type
  that empties what it moves from, \<open>[4, 5, 6]\<close> becomes \<open>[4, 5, 6, 0]\<close>, not
  \<open>[4, 5, 6, 4]\<close>.
\<close>

theorem Insert_own_element:
  "Insert int_Type example_heap example_vector (Pointer (Some 0) 0) (Element (Pointer (Some 0) 1))
     = Some ([Some [1, 1, 2, 3], Some [4, 5, 6]],
             \<lparr>sv_size = 4, sv_capacity = 4, sv_data = Some 0\<rparr>, Pointer (Some 0) 0)
   \<and> Insert emptied_Type example_heap full_vector (Pointer (Some 1) 3)
         (Element (Pointer (Some 1) 0))
     = Some ([Some [1, 2, 3, 0], None, Some [4, 5, 6, 0, 0, 0]],
             \<lparr>sv_size = 4, sv_capacity = 6, sv_data = Some 2\<rparr>, Pointer (Some 2) 3)"
  by code_simp

text \<open>
  C5. \<^verbatim>\<open>Erase(position)\<close> at a position of offset \<open>index\<close> in \<open>[begin, end)\<close> keeps the
  elements before \<open>index\<close>, moves each later element one slot to the left, decrements the
  size and keeps the capacity. The returned iterator points to slot \<open>index\<close>, which holds
  the element that followed the erased one, or is the new end when the last element was
  erased.
\<close>

theorem Erase_shifts:
  assumes "invariant h v" "base pos = sv_data v" "offset pos < sv_size v"
  shows "\<exists>h' v' it. Erase T h v pos = Some (h', v', it)
          \<and> it = Pointer (sv_data v') (offset pos)
          \<and> elements h' v' = take (offset pos) (elements h v) @ drop (offset pos + 1) (elements h v)
          \<and> (\<forall>j < offset pos. elements h' v' ! j = elements h v ! j)
          \<and> (\<forall>j. offset pos \<le> j \<and> j + 1 < sv_size v \<longrightarrow>
                elements h' v' ! j = elements h v ! (j + 1))
          \<and> sv_size v' = sv_size v - 1
          \<and> sv_capacity v' = sv_capacity v
          \<and> (offset pos + 1 < sv_size v \<longrightarrow>
                deref h' it = Some (elements h v ! (offset pos + 1)))
          \<and> (offset pos + 1 = sv_size v \<longrightarrow> it = vend v')"
proof -
  let ?i = "offset pos"
  let ?xs = "elements h v"
  let ?ys = "take ?i ?xs @ drop (?i + 1) ?xs"
  obtain h' v' where er: "Erase T h v pos = Some (h', v', Pointer (sv_data v') ?i)"
      "invariant h' v'" "elements h' v' = ?ys" "sv_size v' = sv_size v - 1"
      "sv_capacity v' = sv_capacity v"
    using Erase_full[OF assms, of T] by blast
  have len: "length ?xs = sv_size v" using assms(1) by (rule length_elements)
  have before: "\<forall>j < ?i. ?ys ! j = ?xs ! j"
    using assms(3) len by (simp add: nth_append)
  have after: "\<forall>j. ?i \<le> j \<and> j + 1 < sv_size v \<longrightarrow> ?ys ! j = ?xs ! (j + 1)"
    using assms(3) len by (auto simp: nth_append)
  have next_slot: "deref h' (Pointer (sv_data v') ?i) = Some (?xs ! (?i + 1))"
    if "?i + 1 < sv_size v"
    using At_element[OF er(2), of ?i] er(3,4) that after by simp
  have last_slot: "Pointer (sv_data v') ?i = vend v'" if "?i + 1 = sv_size v"
    using that er(4) by (simp add: vend_def)
  show ?thesis
    using er(1,4,5) before after next_slot last_slot unfolding er(3)[symmetric]
    by (intro exI[of _ h'] exI[of _ v'] exI[of _ "Pointer (sv_data v') ?i"]) simp
qed

theorem Erase_shifts_witness:
  "invariant example_heap example_vector \<and> base (Pointer (Some 0) 1) = sv_data example_vector
   \<and> offset (Pointer (Some 0) 1) < sv_size example_vector
   \<and> (\<exists>h' v' it. Erase int_Type example_heap example_vector (Pointer (Some 0) 1) = Some (h', v', it)
         \<and> it = Pointer (sv_data v') 1
         \<and> elements h' v' = [1, 3]
         \<and> sv_size v' = 2 \<and> sv_capacity v' = 4
         \<and> deref h' it = Some 3)
   \<and> base (Pointer (Some 0) 2) = sv_data example_vector
   \<and> offset (Pointer (Some 0) 2) < sv_size example_vector
   \<and> (\<exists>h' v' it. Erase int_Type example_heap example_vector (Pointer (Some 0) 2) = Some (h', v', it)
         \<and> it = Pointer (sv_data v') 2
         \<and> elements h' v' = [1, 2]
         \<and> sv_size v' = 2 \<and> sv_capacity v' = 4
         \<and> it = vend v')"
proof -
  have a: "invariant example_heap example_vector" "base (Pointer (Some 0) 1) = sv_data example_vector"
    "offset (Pointer (Some 0) 1) < sv_size example_vector"
    using invariant_examples by (simp_all add: example_facts)
  have b: "invariant example_heap example_vector" "base (Pointer (Some 0) 2) = sv_data example_vector"
    "offset (Pointer (Some 0) 2) < sv_size example_vector"
    using invariant_examples by (simp_all add: example_facts)
  have "\<exists>h' v' it. Erase int_Type example_heap example_vector (Pointer (Some 0) 1) = Some (h', v', it)
         \<and> it = Pointer (sv_data v') 1
         \<and> elements h' v' = [1, 3]
         \<and> sv_size v' = 2 \<and> sv_capacity v' = 4
         \<and> deref h' it = Some 3"
    using Erase_shifts[OF a, of int_Type] by (auto simp: example_facts)
  moreover have "\<exists>h' v' it. Erase int_Type example_heap example_vector (Pointer (Some 0) 2) = Some (h', v', it)
         \<and> it = Pointer (sv_data v') 2
         \<and> elements h' v' = [1, 2]
         \<and> sv_size v' = 2 \<and> sv_capacity v' = 4
         \<and> it = vend v'"
    using Erase_shifts[OF b, of int_Type] by (auto simp: example_facts)
  ultimately show ?thesis using a b by simp
qed

lemma Insert_Erase_argument:
  assumes "invariant h v" "index \<le> sv_size v" "read_argument h item \<noteq> None"
  shows "\<exists>h1 v1 it h2 v2 it2. Insert T h v (Pointer (sv_data v) index) item = Some (h1, v1, it)
          \<and> it = Pointer (sv_data v1) index
          \<and> Erase T h1 v1 it = Some (h2, v2, it2)
          \<and> elements h2 v2 = elements h v"
proof -
  let ?xs = "elements h v"
  let ?pos = "Pointer (sv_data v) index"
  have len: "length ?xs = sv_size v" using assms(1) by (rule length_elements)
  obtain x where arg: "Insert T h v ?pos item = Insert T h v ?pos (Outside x)"
    using Insert_argument[OF assms, of T] by blast
  obtain h1 v1 where ins: "Insert T h v ?pos (Outside x) = Some (h1, v1, Pointer (sv_data v1) index)"
      "invariant h1 v1" "elements h1 v1 = take index ?xs @ [x] @ drop index ?xs"
      "sv_size v1 = sv_size v + 1"
    using Insert_full[of h v ?pos T x] assms(1,2) by auto
  let ?it = "Pointer (sv_data v1) index"
  obtain h2 v2 where er: "Erase T h1 v1 ?it = Some (h2, v2, Pointer (sv_data v2) index)"
      "elements h2 v2 = take index (elements h1 v1) @ drop (index + 1) (elements h1 v1)"
    using Erase_full[of h1 v1 ?it T] ins(2,4) assms(2) by auto
  have "elements h2 v2 = ?xs"
    unfolding er(2) ins(3) using assms(2) len by simp
  then show ?thesis using ins(1) er(1) unfolding arg by blast
qed

text \<open>
  C6. Inserting a value at a valid index and then erasing at the iterator that
  \<^verbatim>\<open>Insert\<close> returned, which is the position of that index in the vector after the
  insertion, gives back the original sequence of elements. That holds for an argument
  outside the heap, and for every argument that can be read at the call, an element of
  the vector itself included: whatever value \<^verbatim>\<open>Insert\<close> then stores, \<^verbatim>\<open>Erase\<close> removes
  it.
\<close>

theorem Insert_then_Erase:
  assumes "invariant h v" "index \<le> sv_size v"
  shows "(\<exists>h1 v1 it h2 v2 it2.
            Insert T h v (Pointer (sv_data v) index) (Outside x) = Some (h1, v1, it)
            \<and> it = Pointer (sv_data v1) index
            \<and> Erase T h1 v1 it = Some (h2, v2, it2)
            \<and> elements h2 v2 = elements h v)
       \<and> (read_argument h item \<noteq> None \<longrightarrow>
            (\<exists>h1 v1 it h2 v2 it2.
               Insert T h v (Pointer (sv_data v) index) item = Some (h1, v1, it)
               \<and> it = Pointer (sv_data v1) index
               \<and> Erase T h1 v1 it = Some (h2, v2, it2)
               \<and> elements h2 v2 = elements h v))"
proof (intro conjI impI)
  have "read_argument h (Outside x) \<noteq> None" by simp
  from Insert_Erase_argument[OF assms this, of T]
  show "\<exists>h1 v1 it h2 v2 it2.
      Insert T h v (Pointer (sv_data v) index) (Outside x) = Some (h1, v1, it)
      \<and> it = Pointer (sv_data v1) index
      \<and> Erase T h1 v1 it = Some (h2, v2, it2)
      \<and> elements h2 v2 = elements h v" .
next
  assume "read_argument h item \<noteq> None"
  from Insert_Erase_argument[OF assms this, of T]
  show "\<exists>h1 v1 it h2 v2 it2.
      Insert T h v (Pointer (sv_data v) index) item = Some (h1, v1, it)
      \<and> it = Pointer (sv_data v1) index
      \<and> Erase T h1 v1 it = Some (h2, v2, it2)
      \<and> elements h2 v2 = elements h v" .
qed

theorem Insert_then_Erase_witness:
  "invariant example_heap example_vector \<and> (1::nat) \<le> sv_size example_vector
   \<and> (\<exists>h1 v1 it h2 v2 it2.
         Insert int_Type example_heap example_vector (Pointer (sv_data example_vector) 1) (Outside 9)
           = Some (h1, v1, it)
         \<and> it = Pointer (sv_data v1) 1
         \<and> Erase int_Type h1 v1 it = Some (h2, v2, it2)
         \<and> elements h2 v2 = [1, 2, 3])
   \<and> read_argument example_heap (Element (Pointer (Some 0) 2)) \<noteq> (None :: int option)
   \<and> (\<exists>h1 v1 it h2 v2 it2.
         Insert int_Type example_heap example_vector (Pointer (sv_data example_vector) 1)
           (Element (Pointer (Some 0) 2)) = Some (h1, v1, it)
         \<and> it = Pointer (sv_data v1) 1
         \<and> Erase int_Type h1 v1 it = Some (h2, v2, it2)
         \<and> elements h2 v2 = [1, 2, 3])
   \<and> invariant example_heap full_vector \<and> (3::nat) \<le> sv_size full_vector
   \<and> (\<exists>h1 v1 it h2 v2 it2.
         Insert int_Type example_heap full_vector (Pointer (sv_data full_vector) 3) (Outside 9)
           = Some (h1, v1, it)
         \<and> it = Pointer (sv_data v1) 3
         \<and> Erase int_Type h1 v1 it = Some (h2, v2, it2)
         \<and> elements h2 v2 = [4, 5, 6])
   \<and> read_argument example_heap (Element (Pointer (Some 1) 0)) \<noteq> (None :: int option)
   \<and> (\<exists>h1 v1 it h2 v2 it2.
         Insert int_Type example_heap full_vector (Pointer (sv_data full_vector) 3)
           (Element (Pointer (Some 1) 0)) = Some (h1, v1, it)
         \<and> it = Pointer (sv_data v1) 3
         \<and> Erase int_Type h1 v1 it = Some (h2, v2, it2)
         \<and> elements h2 v2 = [4, 5, 6])"
proof -
  have a: "invariant example_heap example_vector" "(1::nat) \<le> sv_size example_vector"
    using invariant_examples by (simp_all add: example_facts)
  have b: "invariant example_heap full_vector" "(3::nat) \<le> sv_size full_vector"
    using invariant_examples by (simp_all add: example_facts)
  have r: "read_argument example_heap (Element (Pointer (Some 0) 2)) \<noteq> (None :: int option)"
    "read_argument example_heap (Element (Pointer (Some 1) 0)) \<noteq> (None :: int option)"
    by (simp_all add: deref_def load_def block_def example_heap_def)
  show ?thesis
    using Insert_then_Erase[OF a, of int_Type 9 "Element (Pointer (Some 0) 2)"]
      Insert_then_Erase[OF b, of int_Type 9 "Element (Pointer (Some 1) 0)"] a b r
    unfolding example_facts(7,8) by simp
qed

text \<open>
  C7. \<^verbatim>\<open>Resize(n)\<close> has three cases. For \<open>n \<le> size\<close> it only sets the size: heap, block
  and capacity stay, and the elements are the first \<open>n\<close> of before. For
  \<open>size < n \<le> capacity\<close> it keeps block and capacity, keeps the elements and appends
  \<open>n - size\<close> default values. For \<open>n > capacity\<close> it moves to a block that was not live
  before, of capacity \<open>max n (capacity * 2)\<close>, keeps the elements and appends
  \<open>n - size\<close> default values.
\<close>

theorem Resize_cases:
  assumes "invariant h v"
  shows "\<exists>h' v'. Resize T h v n = Some (h', v')
          \<and> sv_size v' = n
          \<and> invariant h' v'
          \<and> (n \<le> sv_size v \<longrightarrow>
                h' = h \<and> v' = v\<lparr>sv_size := n\<rparr> \<and> elements h' v' = take n (elements h v))
          \<and> (sv_size v < n \<and> n \<le> sv_capacity v \<longrightarrow>
                sv_capacity v' = sv_capacity v \<and> sv_data v' = sv_data v
                \<and> elements h' v' = elements h v @ replicate (n - sv_size v) (Type_default T))
          \<and> (sv_capacity v < n \<longrightarrow>
                sv_capacity v' = max n (sv_capacity v * 2)
                \<and> contents h (sv_data v') = None
                \<and> elements h' v' = elements h v @ replicate (n - sv_size v) (Type_default T))"
proof -
  obtain h' v' where rs: "Resize T h v n = Some (h', v')" "invariant h' v'" "sv_size v' = n"
      "sv_capacity v' = (if n \<le> sv_capacity v then sv_capacity v else max n (sv_capacity v * 2))"
      "elements h' v' = take n (elements h v) @ replicate (n - sv_size v) (Type_default T)"
      "n \<le> sv_capacity v \<longrightarrow> sv_data v' = sv_data v"
    using Resize_full[OF assms, of T n] by blast
  have len: "length (elements h v) = sv_size v" using assms by (rule length_elements)
  have le: "sv_size v \<le> sv_capacity v" using assms by (simp add: invariant_buffer)
  have shrink: "h' = h \<and> v' = v\<lparr>sv_size := n\<rparr>" if "n \<le> sv_size v"
    using rs(1) that by (simp add: Resize_def)
  have fresh: "contents h (sv_data v') = None" if "sv_capacity v < n"
  proof -
    obtain b where buf: "buffer h v = Some b" using assms by (auto simp: invariant_buffer)
    show ?thesis using Resize_realloc[OF assms buf that, of T] rs(1) by auto
  qed
  show ?thesis
    using rs shrink fresh len le by (intro exI[of _ h'] exI[of _ v']) auto
qed

theorem Resize_cases_witness:
  "invariant example_heap example_vector
   \<and> (2::nat) \<le> sv_size example_vector
   \<and> (\<exists>h' v'. Resize int_Type example_heap example_vector 2 = Some (h', v')
         \<and> sv_size v' = 2 \<and> h' = example_heap \<and> v' = example_vector\<lparr>sv_size := 2\<rparr>
         \<and> elements h' v' = [1, 2])
   \<and> sv_size example_vector < 4 \<and> (4::nat) \<le> sv_capacity example_vector
   \<and> (\<exists>h' v'. Resize int_Type example_heap example_vector 4 = Some (h', v')
         \<and> sv_size v' = 4 \<and> sv_capacity v' = 4 \<and> sv_data v' = Some 0
         \<and> elements h' v' = [1, 2, 3, 0])
   \<and> sv_capacity example_vector < 5
   \<and> (\<exists>h' v'. Resize int_Type example_heap example_vector 5 = Some (h', v')
         \<and> sv_size v' = 5 \<and> sv_capacity v' = 8
         \<and> contents example_heap (sv_data v') = None
         \<and> elements h' v' = [1, 2, 3, 0, 0])"
proof -
  have d: "Type_default int_Type = 0" by (simp add: int_Type_def)
  have r: "replicate (2::nat) (0::int) = [0, 0]" by (simp add: numeral_2_eq_2)
  show ?thesis
    using Resize_cases[OF invariant_examples(1), of int_Type 2]
      Resize_cases[OF invariant_examples(1), of int_Type 4]
      Resize_cases[OF invariant_examples(1), of int_Type 5]
      invariant_examples(1)
    by (simp add: example_facts d r) blast
qed

lemma mutate_step:
  assumes inv: "invariant h v" and run: "mutate T h v m = Some (h', v')"
  shows "invariant h' v' \<and> step_of h v h' v'"
proof (cases m)
  case (Do_PushBack item)
  then obtain x where "PushBack T h v (Outside x) = Some (h', v')"
    using run PushBack_reads[of T h v item "(h', v')"] by auto
  then show ?thesis using PushBack_full[OF inv, of T x] by auto
next
  case Do_PopBack
  then have "h' = h" "v' = v\<lparr>sv_size := sv_size v - 1\<rparr>"
    using run by (auto simp: PopBack_def split: if_splits)
  then show ?thesis using inv
    by (auto simp: invariant_def buffer_def step_of_def split: option.splits)
next
  case (Do_Insert i item)
  then obtain it where "Insert T h v (Pointer (sv_data v) i) item = Some (h', v', it)"
    using run by (auto split: Option.bind_splits)
  then obtain x where x: "Insert T h v (Pointer (sv_data v) i) (Outside x) = Some (h', v', it)"
    using Insert_reads by blast
  have "i \<le> sv_size v"
  proof (rule ccontr)
    assume "\<not> i \<le> sv_size v"
    then have "Insert T h v (Pointer (sv_data v) i) (Outside x) = None"
      by (simp add: Insert_def vbegin_def vend_def)
    then show False using x by simp
  qed
  then show ?thesis
    using Insert_full[of h v "Pointer (sv_data v) i" T x] inv x by auto
next
  case (Do_Erase i)
  have "i < sv_size v"
  proof (rule ccontr)
    assume "\<not> i < sv_size v"
    then have "Erase T h v (Pointer (sv_data v) i) = None"
      by (simp add: Erase_def vbegin_def vend_def)
    then show False using run Do_Erase by simp
  qed
  then show ?thesis
    using Erase_full[of h v "Pointer (sv_data v) i" T] inv run Do_Erase by auto
next
  case (Do_Resize n)
  then show ?thesis using Resize_full[OF inv, of T n] run by auto
next
  case (Do_Reserve n)
  then show ?thesis using Reserve_full[OF inv, of T n] run by auto
next
  case Do_Clear
  then have "h' = h" "v' = v\<lparr>sv_size := 0\<rparr>" using run by (auto simp: Clear_def)
  then show ?thesis using inv
    by (auto simp: invariant_def buffer_def step_of_def split: option.splits)
next
  case (Do_subscript i x)
  obtain b where buf: "buffer h v = Some b" and len: "length b = sv_capacity v"
      "sv_size v \<le> sv_capacity v"
    using inv by (auto simp: invariant_buffer)
  have i: "i < sv_size v" using run Do_subscript by (auto simp: subscript_def split: if_splits)
  have "store h (sv_data v) i x = Some (put h (sv_data v) (b[i := x]))"
    using buf i len by (intro store_contents) (simp_all add: buffer_def)
  then have r: "h' = put h (sv_data v) (b[i := x])" "v' = v"
    using run Do_subscript i by (auto simp: subscript_def ArrayPtr_index_def)
  have "buffer h' v' = Some (b[i := x])"
    unfolding r using buffer_put[OF buf, of "b[i := x]" v] by simp
  then show ?thesis using len unfolding r by (simp add: invariant_buffer step_of_put)
next
  case (Do_At i x)
  show ?thesis
  proof (cases "i < sv_size v")
    case True
    obtain b where buf: "buffer h v = Some b" and len: "length b = sv_capacity v"
        "sv_size v \<le> sv_capacity v"
      using inv by (auto simp: invariant_buffer)
    have "store h (sv_data v) i x = Some (put h (sv_data v) (b[i := x]))"
      using buf True len by (intro store_contents) (simp_all add: buffer_def)
    then have r: "h' = put h (sv_data v) (b[i := x])" "v' = v"
      using run Do_At True by (auto simp: At_def)
    have "buffer h' v' = Some (b[i := x])"
      unfolding r using buffer_put[OF buf, of "b[i := x]" v] by simp
    then show ?thesis using len unfolding r by (simp add: invariant_buffer step_of_put)
  next
    case False
    then have "h' = h" "v' = v" using run Do_At by (auto simp: At_def)
    then show ?thesis using inv by (simp add: step_of_def)
  qed
qed

lemma mutate_all_isolated:
  assumes "invariant h c" "invariant h w" "separate c w"
    and "mutate_all T h c ms = Some (h', c')"
  shows "invariant h' c' \<and> invariant h' w \<and> elements h' w = elements h w"
  using assms
proof (induction ms arbitrary: h c)
  case Nil
  then show ?case by simp
next
  case (Cons m ms)
  obtain h1 c1 where step: "mutate T h c m = Some (h1, c1)"
      and rest: "mutate_all T h1 c1 ms = Some (h', c')"
    using Cons.prems(4) by (auto split: Option.bind_splits)
  have s: "invariant h1 c1" "step_of h c h1 c1"
    using mutate_step[OF Cons.prems(1) step] by simp_all
  have live: "contents h (sv_data w) \<noteq> None"
    using Cons.prems(2) by (auto simp: invariant_buffer buffer_def)
  have same: "contents h1 (sv_data w) = contents h (sv_data w)"
  proof (cases "sv_data w = sv_data c")
    case True
    then have "sv_data w = None" using Cons.prems(3) by (auto simp: separate_def)
    then show ?thesis by simp
  next
    case False
    then show ?thesis using s(2) live by (simp add: step_of_def)
  qed
  have w1: "invariant h1 w" "elements h1 w = elements h w"
    using invariant_frame[OF Cons.prems(2) same] by simp_all
  have sep1: "separate c1 w"
    using s(2) Cons.prems(3) live by (auto simp: step_of_def separate_def)
  show ?case using Cons.IH[OF s(1) w1(1) sep1 rest] w1(2) by simp
qed

lemma copy_full:
  assumes inv: "invariant h other"
  shows "\<exists>h' c. SimpleVector_copy T h other = Some (h', c)
          \<and> invariant h' c \<and> invariant h' other \<and> separate c other
          \<and> sv_size c = sv_size other \<and> sv_capacity c = sv_size other
          \<and> elements h' c = elements h other \<and> elements h' other = elements h other
          \<and> (\<forall>q. contents h q \<noteq> None \<longrightarrow> contents h' q = contents h q)"
proof -
  obtain b where buf: "buffer h other = Some b" and len: "sv_size other \<le> length b"
    using inv by (auto simp: invariant_buffer)
  let ?n = "sv_size other"
  obtain h' p where c:
      "SimpleVector_copy T h other = Some (h', \<lparr>sv_size = ?n, sv_capacity = ?n, sv_data = p\<rparr>)"
      "contents h' p = Some (take ?n b)" "p = None \<or> contents h p = None"
      "\<forall>q. contents h q \<noteq> None \<longrightarrow> contents h' q = contents h q"
    using SimpleVector_copy_spec[OF inv buf, of T] by blast
  let ?c = "\<lparr>sv_size = ?n, sv_capacity = ?n, sv_data = p\<rparr>"
  have bc: "buffer h' ?c = Some (take ?n b)" using c(2) by (simp add: buffer_def)
  have ic: "invariant h' ?c" using bc len by (simp add: invariant_buffer)
  have ec: "elements h' ?c = elements h other"
    using elements_buffer[OF bc] elements_buffer[OF buf] by simp
  have live: "contents h (sv_data other) \<noteq> None" using buf by (simp add: buffer_def)
  then have same: "contents h' (sv_data other) = contents h (sv_data other)" using c(4) by simp
  have io: "invariant h' other" "elements h' other = elements h other"
    using invariant_frame[OF inv same] by simp_all
  have sep: "separate ?c other" using c(3) live by (auto simp: separate_def)
  show ?thesis using c(1,4) ic io sep ec
    by (intro exI[of _ h'] exI[of _ ?c]) simp
qed

text \<open>
  C8. A copy-constructed vector compares equal to the original, its capacity is the size
  of the original, and it owns a block of its own: whatever calls change the copy
  afterwards, the original keeps its block with its capacity, and its elements.
\<close>

theorem copy_is_deep:
  assumes "invariant h original"
  shows "\<exists>h0 copy. SimpleVector_copy T h original = Some (h0, copy)
          \<and> equal_op h0 copy original = Some True
          \<and> sv_capacity copy = sv_size original
          \<and> elements h0 original = elements h original
          \<and> (\<forall>ms h' copy'. mutate_all T h0 copy ms = Some (h', copy') \<longrightarrow>
                elements h' original = elements h original \<and> invariant h' original)"
proof -
  obtain h0 c where c: "SimpleVector_copy T h original = Some (h0, c)"
      "invariant h0 c" "invariant h0 original" "separate c original"
      "sv_capacity c = sv_size original"
      "elements h0 c = elements h original" "elements h0 original = elements h original"
    using copy_full[OF assms, of T] by blast
  have eq: "equal_op h0 c original = Some True"
    using equal_op_spec[OF c(2,3)] c(6,7) by simp
  have "elements h' original = elements h original \<and> invariant h' original"
    if "mutate_all T h0 c ms = Some (h', c')" for ms h' c'
    using mutate_all_isolated[OF c(2,3,4) that] c(7) by simp
  then show ?thesis using c(1,5,7) eq by (intro exI[of _ h0] exI[of _ c]) blast
qed

theorem copy_is_deep_witness:
  "invariant example_heap example_vector
   \<and> (\<exists>h0 copy h' copy'.
         SimpleVector_copy int_Type example_heap example_vector = Some (h0, copy)
         \<and> equal_op h0 copy example_vector = Some True
         \<and> sv_capacity copy = 3
         \<and> mutate_all int_Type h0 copy example_mutations = Some (h', copy')
         \<and> elements h' copy' = [8, 8, 5, 0, 0, 0, 0]
         \<and> elements h' example_vector = [1, 2, 3]
         \<and> invariant h' example_vector)"
proof -
  let ?h0 = "[Some [1, 2, 3, 0], Some [4, 5, 6], Some [1, 2, 3 :: int]]"
  let ?c = "\<lparr>sv_size = 3, sv_capacity = 3, sv_data = Some 2\<rparr>"
  let ?h' = "[Some [1, 2, 3, 0], Some [4, 5, 6], None, None, None,
    Some [8, 8, 5, 0, 0, 0, 0, 0, 0, 0, 0, 0, 0, 0, 0, 0, 0, 0, 0, 0 :: int]]"
  let ?c' = "\<lparr>sv_size = 7, sv_capacity = 20, sv_data = Some 5\<rparr>"
  have copy: "SimpleVector_copy int_Type example_heap example_vector = Some (?h0, ?c)"
    by code_simp
  have run: "mutate_all int_Type ?h0 ?c example_mutations = Some (?h', ?c')"
    by code_simp
  have el: "elements ?h' ?c' = [8, 8, 5, 0, 0, 0, 0]"
    by code_simp
  obtain h0 c where c: "SimpleVector_copy int_Type example_heap example_vector = Some (h0, c)"
      "equal_op h0 c example_vector = Some True"
      "sv_capacity c = sv_size example_vector"
      "\<forall>ms h' copy'. mutate_all int_Type h0 c ms = Some (h', copy') \<longrightarrow>
          elements h' example_vector = elements example_heap example_vector
          \<and> invariant h' example_vector"
    using copy_is_deep[OF invariant_examples(1), of int_Type] by blast
  have same: "h0 = ?h0" "c = ?c" using c(1) copy by simp_all
  have run': "mutate_all int_Type h0 c example_mutations = Some (?h', ?c')"
    using run same by simp
  have "elements ?h' example_vector = [1, 2, 3] \<and> invariant ?h' example_vector"
    using c(4)[rule_format, OF run'] by (simp add: example_facts)
  then show ?thesis
    using invariant_examples(1) copy run el c(2,3) unfolding same
    by (intro conjI exI[of _ ?h0] exI[of _ ?c] exI[of _ ?h'] exI[of _ ?c'])
       (simp_all add: example_facts)
qed

lemma fill_invariant:
  "\<exists>h' u. SimpleVector_fill T h n x = Some (h', u) \<and> invariant h' u
     \<and> elements h' u = replicate n x"
proof -
  obtain h' p where f: "SimpleVector_fill T h n x
        = Some (h', \<lparr>sv_size = n, sv_capacity = n, sv_data = p\<rparr>)"
      "contents h' p = Some (replicate n x)"
    using SimpleVector_fill_spec[of T h n x] by blast
  let ?u = "\<lparr>sv_size = n, sv_capacity = n, sv_data = p\<rparr>"
  have "invariant h' ?u" "elements h' ?u = replicate n x"
    using f(2) by (simp_all add: invariant_def elements_def buffer_def)
  then show ?thesis using f(1) by blast
qed

lemma reserve_invariant:
  "invariant (fst (SimpleVector_reserve T h n)) (snd (SimpleVector_reserve T h n))
   \<and> elements (fst (SimpleVector_reserve T h n)) (snd (SimpleVector_reserve T h n)) = []"
proof -
  obtain h' p where f: "SimpleVector_reserve T h n
        = (h', \<lparr>sv_size = 0, sv_capacity = n, sv_data = p\<rparr>)"
      "contents h' p = Some (replicate n (Type_default T))"
    using SimpleVector_reserve_spec[of T h n] by blast
  show ?thesis using f(2) unfolding f(1)
    by (simp add: invariant_def elements_def buffer_def)
qed

lemma init_invariant:
  "\<exists>h' u. SimpleVector_init T h init = Some (h', u) \<and> invariant h' u \<and> elements h' u = init"
proof -
  obtain h' p where f: "SimpleVector_init T h init
        = Some (h', \<lparr>sv_size = length init, sv_capacity = length init, sv_data = p\<rparr>)"
      "contents h' p = Some init"
    using SimpleVector_init_spec[of T h init] by blast
  let ?u = "\<lparr>sv_size = length init, sv_capacity = length init, sv_data = p\<rparr>"
  have "invariant h' ?u" "elements h' ?u = init"
    using f(2) by (simp_all add: invariant_def elements_def buffer_def)
  then show ?thesis using f(1) by blast
qed

lemma move_invariant:
  assumes "invariant h v"
  shows "invariant h (fst (SimpleVector_move v))" "invariant h (snd (SimpleVector_move v))"
  using assms
  by (auto simp: SimpleVector_move_def Release_def invariant_def buffer_def split: option.splits)

lemma swap_invariant:
  assumes "invariant h v" "invariant h w"
  shows "invariant h (fst (swap v w))" "invariant h (snd (swap v w))"
  using assms
  by (auto simp: swap_def ArrayPtr_swap_def invariant_def buffer_def split: option.splits)

lemma assign_invariant:
  assumes "invariant h (s this)" "invariant h (s rhs)"
    and "this = rhs \<or> separate (s this) (s rhs)"
  shows "\<exists>h' s'. assign T h s this rhs = Some (h', s')
          \<and> invariant h' (s' this) \<and> invariant h' (s' rhs)"
proof (cases "this = rhs")
  case True
  then show ?thesis using assms(1) by (simp add: assign_def)
next
  case False
  then have "separate (s this) (s rhs)" using assms(3) by simp
  from assign_full[OF False assms(2,1) this, of T] show ?thesis by auto
qed

text \<open>
  C9. Every operation leaves each vector it works on in a state where \<open>size \<le> capacity\<close>
  and the block has \<open>capacity\<close> slots: the constructors (default, with reserved
  capacity, with a size, with a size and a value, from an initializer list, copy and
  move), the assignment, \<^verbatim>\<open>PushBack\<close>, \<^verbatim>\<open>PopBack\<close>, \<^verbatim>\<open>Insert\<close>, \<^verbatim>\<open>Erase\<close>, \<^verbatim>\<open>Resize\<close>,
  \<^verbatim>\<open>Reserve\<close>, \<^verbatim>\<open>Clear\<close> and \<^verbatim>\<open>swap\<close>. In such a state the sequence a user sees has
  \<open>size\<close> elements, and the slot at each index below \<open>size\<close> holds the element of that
  index. \<^verbatim>\<open>PushBack\<close> and \<^verbatim>\<open>Insert\<close> do so for a value from outside the heap, and for
  every argument that can be read at the call: \<^verbatim>\<open>Insert\<close> always, \<^verbatim>\<open>PushBack\<close> when the
  vector has room or the argument is not one of its own elements.
\<close>

theorem invariant_preserved:
  assumes "invariant h (s this)" "invariant h (s rhs)"
    and "this = rhs \<or> separate (s this) (s rhs)"
  shows "invariant h SimpleVector_default
       \<and> invariant (fst (SimpleVector_reserve T h capacity)) (snd (SimpleVector_reserve T h capacity))
       \<and> (\<exists>h' u. SimpleVector_sized T h n = Some (h', u) \<and> invariant h' u)
       \<and> (\<exists>h' u. SimpleVector_fill T h n x = Some (h', u) \<and> invariant h' u)
       \<and> (\<exists>h' u. SimpleVector_init T h init = Some (h', u) \<and> invariant h' u)
       \<and> (\<exists>h' u. SimpleVector_copy T h (s this) = Some (h', u)
             \<and> invariant h' u \<and> invariant h' (s this))
       \<and> invariant h (fst (SimpleVector_move (s this)))
       \<and> invariant h (snd (SimpleVector_move (s this)))
       \<and> (\<exists>h' s'. assign T h s this rhs = Some (h', s')
             \<and> invariant h' (s' this) \<and> invariant h' (s' rhs))
       \<and> (\<exists>h' u. PushBack T h (s this) (Outside item) = Some (h', u) \<and> invariant h' u)
       \<and> (read_argument h arg \<noteq> None
            \<and> (sv_size (s this) < sv_capacity (s this) \<or> \<not> inside (s this) arg) \<longrightarrow>
             (\<exists>h' u. PushBack T h (s this) arg = Some (h', u) \<and> invariant h' u))
       \<and> (sv_size (s this) > 0 \<longrightarrow> (\<exists>u. PopBack (s this) = Some u \<and> invariant h u))
       \<and> (i \<le> sv_size (s this) \<longrightarrow>
             (\<exists>h' u it. Insert T h (s this) (Pointer (sv_data (s this)) i) (Outside y)
                           = Some (h', u, it)
                \<and> invariant h' u))
       \<and> (i \<le> sv_size (s this) \<and> read_argument h arg \<noteq> None \<longrightarrow>
             (\<exists>h' u it. Insert T h (s this) (Pointer (sv_data (s this)) i) arg = Some (h', u, it)
                \<and> invariant h' u))
       \<and> (j < sv_size (s this) \<longrightarrow>
             (\<exists>h' u it. Erase T h (s this) (Pointer (sv_data (s this)) j) = Some (h', u, it)
                \<and> invariant h' u))
       \<and> (\<exists>h' u. Resize T h (s this) new_size = Some (h', u) \<and> invariant h' u)
       \<and> (\<exists>h' u. Reserve T h (s this) new_capacity = Some (h', u) \<and> invariant h' u)
       \<and> invariant h (Clear (s this))
       \<and> invariant h (fst (swap (s this) (s rhs)))
       \<and> invariant h (snd (swap (s this) (s rhs)))
       \<and> length (elements h (s this)) = sv_size (s this)
       \<and> (\<forall>k < sv_size (s this).
             deref h (Pointer (sv_data (s this)) k) = Some (elements h (s this) ! k))"
proof -
  let ?v = "s this"
  have dflt: "invariant h SimpleVector_default"
    by (simp add: invariant_def buffer_def SimpleVector_default_def)
  have reserve: "invariant (fst (SimpleVector_reserve T h capacity))
      (snd (SimpleVector_reserve T h capacity))"
    using reserve_invariant[of T h capacity] by simp
  have sized: "\<exists>h' u. SimpleVector_sized T h n = Some (h', u) \<and> invariant h' u"
    using fill_invariant[of T h n "Type_default T"] by (auto simp: SimpleVector_sized_def)
  have fill: "\<exists>h' u. SimpleVector_fill T h n x = Some (h', u) \<and> invariant h' u"
    using fill_invariant[of T h n x] by auto
  have init: "\<exists>h' u. SimpleVector_init T h init = Some (h', u) \<and> invariant h' u"
    using init_invariant[of T h init] by auto
  have copy: "\<exists>h' u. SimpleVector_copy T h ?v = Some (h', u) \<and> invariant h' u \<and> invariant h' ?v"
    using copy_full[OF assms(1), of T] by auto
  have push: "\<exists>h' u. PushBack T h ?v (Outside item) = Some (h', u) \<and> invariant h' u"
    using PushBack_full[OF assms(1), of T item] by auto
  have push': "read_argument h arg \<noteq> None
        \<and> (sv_size ?v < sv_capacity ?v \<or> \<not> inside ?v arg) \<longrightarrow>
      (\<exists>h' u. PushBack T h ?v arg = Some (h', u) \<and> invariant h' u)"
  proof
    assume a: "read_argument h arg \<noteq> None
        \<and> (sv_size ?v < sv_capacity ?v \<or> \<not> inside ?v arg)"
    then obtain x' where "read_argument h arg = Some x'" by auto
    then have "PushBack T h ?v arg = PushBack T h ?v (Outside x')"
      using PushBack_argument[OF assms(1), of arg x' T] a by simp
    then show "\<exists>h' u. PushBack T h ?v arg = Some (h', u) \<and> invariant h' u"
      using PushBack_full[OF assms(1), of T x'] by auto
  qed
  have pop: "sv_size ?v > 0 \<longrightarrow> (\<exists>u. PopBack ?v = Some u \<and> invariant h u)"
    using assms(1)
    by (auto simp: PopBack_def invariant_def buffer_def split: option.splits)
  have ins: "i \<le> sv_size ?v \<longrightarrow>
      (\<exists>h' u it. Insert T h ?v (Pointer (sv_data ?v) i) (Outside y) = Some (h', u, it)
         \<and> invariant h' u)"
    using Insert_full[of h ?v "Pointer (sv_data ?v) i" T y] assms(1) by auto
  have ins': "i \<le> sv_size ?v \<and> read_argument h arg \<noteq> None \<longrightarrow>
      (\<exists>h' u it. Insert T h ?v (Pointer (sv_data ?v) i) arg = Some (h', u, it) \<and> invariant h' u)"
  proof
    assume a: "i \<le> sv_size ?v \<and> read_argument h arg \<noteq> None"
    then obtain x' where "Insert T h ?v (Pointer (sv_data ?v) i) arg
        = Insert T h ?v (Pointer (sv_data ?v) i) (Outside x')"
      using Insert_argument[OF assms(1), of i arg T] by blast
    then show "\<exists>h' u it. Insert T h ?v (Pointer (sv_data ?v) i) arg = Some (h', u, it)
        \<and> invariant h' u"
      using Insert_full[of h ?v "Pointer (sv_data ?v) i" T x'] assms(1) a by auto
  qed
  have er: "j < sv_size ?v \<longrightarrow>
      (\<exists>h' u it. Erase T h ?v (Pointer (sv_data ?v) j) = Some (h', u, it) \<and> invariant h' u)"
    using Erase_full[of h ?v "Pointer (sv_data ?v) j" T] assms(1) by auto
  have resize: "\<exists>h' u. Resize T h ?v new_size = Some (h', u) \<and> invariant h' u"
    using Resize_full[OF assms(1), of T new_size] by auto
  have reserve': "\<exists>h' u. Reserve T h ?v new_capacity = Some (h', u) \<and> invariant h' u"
    using Reserve_full[OF assms(1), of T new_capacity] by auto
  have clear: "invariant h (Clear ?v)"
    using assms(1) by (auto simp: Clear_def invariant_def buffer_def split: option.splits)
  have seq: "\<forall>k < sv_size ?v. deref h (Pointer (sv_data ?v) k) = Some (elements h ?v ! k)"
    using At_element[OF assms(1)] by simp
  show ?thesis
    using dflt reserve sized fill init copy move_invariant[OF assms(1)]
      assign_invariant[OF assms, of T] push push' pop ins ins' er resize reserve' clear
      swap_invariant[OF assms(1,2)] length_elements[OF assms(1)] seq
    by (intro conjI)
qed


theorem invariant_preserved_witness:
  "invariant example_heap (example_objects 1) \<and> invariant example_heap (example_objects 2)
   \<and> separate (example_objects 1) (example_objects 2)
   \<and> invariant example_heap SimpleVector_default
   \<and> invariant (fst (SimpleVector_reserve int_Type example_heap 5))
        (snd (SimpleVector_reserve int_Type example_heap 5))
   \<and> (\<exists>h' u. SimpleVector_sized int_Type example_heap 2 = Some (h', u) \<and> invariant h' u)
   \<and> (\<exists>h' u. SimpleVector_fill int_Type example_heap 2 7 = Some (h', u) \<and> invariant h' u)
   \<and> (\<exists>h' u. SimpleVector_init int_Type example_heap [1, 2] = Some (h', u) \<and> invariant h' u)
   \<and> (\<exists>h' u. SimpleVector_copy int_Type example_heap (example_objects 1) = Some (h', u)
         \<and> invariant h' u \<and> invariant h' (example_objects 1))
   \<and> invariant example_heap (fst (SimpleVector_move (example_objects 1)))
   \<and> invariant example_heap (snd (SimpleVector_move (example_objects 1)))
   \<and> (\<exists>h' s'. assign int_Type example_heap example_objects 1 2 = Some (h', s')
         \<and> invariant h' (s' 1) \<and> invariant h' (s' 2))
   \<and> (\<exists>h' u. PushBack int_Type example_heap (example_objects 1) (Outside 7) = Some (h', u)
         \<and> invariant h' u)
   \<and> read_argument example_heap (Element (Pointer (Some 0) 2)) \<noteq> (None :: int option)
   \<and> sv_size (example_objects 1) < sv_capacity (example_objects 1)
   \<and> (\<exists>h' u. PushBack int_Type example_heap (example_objects 1) (Element (Pointer (Some 0) 2))
                 = Some (h', u)
         \<and> invariant h' u)
   \<and> sv_size (example_objects 1) > 0
   \<and> (\<exists>u. PopBack (example_objects 1) = Some u \<and> invariant example_heap u)
   \<and> 1 \<le> sv_size (example_objects 1)
   \<and> (\<exists>h' u it. Insert int_Type example_heap (example_objects 1)
                    (Pointer (sv_data (example_objects 1)) 1) (Outside 9) = Some (h', u, it)
         \<and> invariant h' u)
   \<and> (\<exists>h' u it. Insert int_Type example_heap (example_objects 1)
                    (Pointer (sv_data (example_objects 1)) 1) (Element (Pointer (Some 0) 2))
                    = Some (h', u, it)
         \<and> invariant h' u)
   \<and> 1 < sv_size (example_objects 1)
   \<and> (\<exists>h' u it. Erase int_Type example_heap (example_objects 1)
                    (Pointer (sv_data (example_objects 1)) 1) = Some (h', u, it)
         \<and> invariant h' u)
   \<and> (\<exists>h' u. Resize int_Type example_heap (example_objects 1) 5 = Some (h', u)
         \<and> invariant h' u)
   \<and> (\<exists>h' u. Reserve int_Type example_heap (example_objects 1) 10 = Some (h', u)
         \<and> invariant h' u)
   \<and> invariant example_heap (Clear (example_objects 1))
   \<and> invariant example_heap (fst (swap (example_objects 1) (example_objects 2)))
   \<and> invariant example_heap (snd (swap (example_objects 1) (example_objects 2)))
   \<and> length (elements example_heap (example_objects 1)) = sv_size (example_objects 1)
   \<and> deref example_heap (Pointer (sv_data (example_objects 1)) 1) = Some 2"
proof -
  have o: "example_objects (Suc 0) = example_vector" "example_objects 2 = full_vector"
    by (simp_all add: example_objects_def)
  have a: "invariant example_heap (example_objects 1)" "invariant example_heap (example_objects 2)"
    using invariant_examples by (simp_all add: o)
  have b: "separate (example_objects 1) (example_objects 2)"
    by (simp add: o separate_def example_facts)
  have c: "(1::nat) = 2 \<or> separate (example_objects 1) (example_objects 2)"
    using b by simp
  note t = invariant_preserved[OF a c, where T = int_Type and capacity = 5 and n = 2
      and x = 7 and init = "[1, 2]" and item = 7 and i = 1 and y = 9 and j = 1
      and new_size = 5 and new_capacity = 10 and arg = "Element (Pointer (Some 0) 2)"]
  have e: "elements example_heap example_vector ! Suc 0 = 2"
    by (simp add: example_facts)
  have r: "read_argument example_heap (Element (Pointer (Some 0) 2)) \<noteq> (None :: int option)"
    by (simp add: deref_def load_def block_def example_heap_def)
  show ?thesis
    using t a b r by (simp add: o example_facts e)
qed

text \<open>
  C10. Assigning a vector to itself changes nothing: neither the heap nor any object.
\<close>

theorem self_assignment: "assign T h s this this = Some (h, s)"
  by (simp add: assign_def)

end
